theory Spec2Isabelle
  imports Main
begin

section \<open>Tables\<close>

text \<open>
  \<^verbatim>\<open>typedef struct{ int chr, start, stop; char id[50]; }Region_s;\<close> and
  \<^verbatim>\<open>typedef struct{ int chr, pos; char ref, alt; }Site_s;\<close>.
  A table is the array filled by a loader together with its length: a list.
  Chromosomes and positions are only ever compared, so they are integers.
\<close>

record Region_s =
  r_chr :: int
  r_start :: int
  r_stop :: int
  r_id :: string

record Site_s =
  s_chr :: int
  s_pos :: int
  s_ref :: char
  s_alt :: char

section \<open>The cursor loops of the merge-join\<close>

text \<open>
  The loop over the gene table and the loop over the coordinate table in readVcf of
  estDAF.c have the same text up to the name of the table and of its cursor:
  \<^verbatim>\<open>
  while(gene_i < gene_n){
      if(chr == genes[gene_i].chr){
          if(pos <= genes[gene_i].stop && pos >= genes[gene_i].start){ ...; break; }
          else if(pos < genes[gene_i].start)
              break;
      }
      else if(chr < genes[gene_i].chr)
          break;
      gene_i++;
  }
  \<close>
  The function returns the cursor at which the loop is left and whether it was left
  through the containment branch.
\<close>

function region_loop :: "Region_s list \<Rightarrow> int \<Rightarrow> int \<Rightarrow> nat \<Rightarrow> nat \<times> bool" where
  "region_loop tbl chr pos i =
     (if i < length tbl then
        (if chr = r_chr (tbl ! i) then
           (if pos \<le> r_stop (tbl ! i) \<and> pos \<ge> r_start (tbl ! i) then (i, True)
            else if pos < r_start (tbl ! i) then (i, False)
            else region_loop tbl chr pos (i + 1))
         else if chr < r_chr (tbl ! i) then (i, False)
         else region_loop tbl chr pos (i + 1))
      else (i, False))"
  by pat_completeness auto
termination
  by (relation "measure (\<lambda>(tbl, chr, pos, i). length tbl - i)") auto

text \<open>
  The loop over the divergence table (both programs):
  \<^verbatim>\<open>
  while(div_i < div_n){
      if(chr == div[div_i].chr){
          if(pos == div[div_i].pos){ rd = 1; break; }
          else if(pos < div[div_i].pos)
              break;
      }
      else if(chr < div[div_i].chr)
          break;
      div_i++;
  }
  \<close>
\<close>

function div_loop :: "Site_s list \<Rightarrow> int \<Rightarrow> int \<Rightarrow> nat \<Rightarrow> nat \<times> bool" where
  "div_loop tbl chr pos i =
     (if i < length tbl then
        (if chr = s_chr (tbl ! i) then
           (if pos = s_pos (tbl ! i) then (i, True)
            else if pos < s_pos (tbl ! i) then (i, False)
            else div_loop tbl chr pos (i + 1))
         else if chr < s_chr (tbl ! i) then (i, False)
         else div_loop tbl chr pos (i + 1))
      else (i, False))"
  by pat_completeness auto
termination
  by (relation "measure (\<lambda>(tbl, chr, pos, i). length tbl - i)") auto

text \<open>
  The loop over the site table in readVcf of makeDFE-alpha.c; a site is the pair
  \<^verbatim>\<open>sites[site_i][0]\<close> (chromosome), \<^verbatim>\<open>sites[site_i][1]\<close> (position).
\<close>

function site_loop :: "(int \<times> int) list \<Rightarrow> int \<Rightarrow> int \<Rightarrow> nat \<Rightarrow> nat \<times> bool" where
  "site_loop tbl chr pos i =
     (if i < length tbl then
        (if chr = fst (tbl ! i) then
           (if pos = snd (tbl ! i) then (i, True)
            else if pos < snd (tbl ! i) then (i, False)
            else site_loop tbl chr pos (i + 1))
         else if chr < fst (tbl ! i) then (i, False)
         else site_loop tbl chr pos (i + 1))
      else (i, False))"
  by pat_completeness auto
termination
  by (relation "measure (\<lambda>(tbl, chr, pos, i). length tbl - i)") auto

declare region_loop.simps [simp del] div_loop.simps [simp del] site_loop.simps [simp del]


text \<open>
  The order that the programs assume of their tables: by chromosome, then by start
  (regions) or by position (sites).
\<close>

definition region_before :: "Region_s \<Rightarrow> Region_s \<Rightarrow> bool" where
  "region_before a b = (r_chr a < r_chr b \<or> r_chr a = r_chr b \<and> r_start a \<le> r_start b)"

definition site_before :: "Site_s \<Rightarrow> Site_s \<Rightarrow> bool" where
  "site_before a b = (s_chr a < s_chr b \<or> s_chr a = s_chr b \<and> s_pos a \<le> s_pos b)"

definition pair_before :: "int \<times> int \<Rightarrow> int \<times> int \<Rightarrow> bool" where
  "pair_before a b = (fst a < fst b \<or> fst a = fst b \<and> snd a \<le> snd b)"

section \<open>Lines, tokens and numbers\<close>

text \<open>
  What the C library does on a line, as far as the programs use it. The buffer that
  \<^verbatim>\<open>getline\<close> fills holds the line and, behind it, the terminator.
  \<^verbatim>\<open>lineTerminator\<close> overwrites with the terminator every line feed and carriage return
  that lies before the first terminator. Its value here is the content of the buffer
  after the call, up to and including the terminator that \<^verbatim>\<open>getline\<close> wrote.
\<close>

definition lineTerminator :: "string \<Rightarrow> string" where
  "lineTerminator line =
     map (\<lambda>c. if c = CHR 0x0A \<or> c = CHR 0x0D then CHR 0x00 else c)
         (takeWhile (\<lambda>c. c \<noteq> CHR 0x00) line)
     @ dropWhile (\<lambda>c. c \<noteq> CHR 0x00) line @ [CHR 0x00]"

text \<open>
  The successive results of \<^verbatim>\<open>strtok(line,"\t")\<close>, \<^verbatim>\<open>strtok(NULL,"\t")\<close>, ... up to the
  first \<^verbatim>\<open>NULL\<close>, on the content of the buffer. A token is a maximal run of bytes other
  than the tabulator, before the first terminator; \<^verbatim>\<open>strtok\<close> overwrites the tabulator
  that ends it with the terminator and returns a pointer to its first byte. A result is
  given as the bytes of the buffer from that pointer on, as they are when the pointer is
  returned: the token, a terminator, and what follows in the buffer (later tokens, their
  tabulators not yet overwritten, and whatever lies behind the first terminator of the
  line). A token is never empty: adjacent tabulators delimit nothing.
\<close>

fun strtok :: "string \<Rightarrow> string \<Rightarrow> string list" where
  "strtok cur [] = (if cur = [] then [] else [rev cur])"
| "strtok cur (c # cs) =
     (if c = CHR 0x00 then (if cur = [] then [] else [rev cur @ c # cs])
      else if c = CHR 0x09
      then (if cur = [] then strtok [] cs else (rev cur @ CHR 0x00 # cs) # strtok [] cs)
      else strtok (c # cur) cs)"

definition tokens :: "string \<Rightarrow> string list" where
  "tokens line = strtok [] (lineTerminator line)"

text \<open>The C string at a pointer: the bytes up to the first terminator.\<close>

definition cstring :: "string \<Rightarrow> string" where
  "cstring temp = takeWhile (\<lambda>c. c \<noteq> CHR 0x00) temp"

text \<open>\<^verbatim>\<open>temp[0]\<close>: the first byte at the pointer (the terminator when nothing is there).\<close>

definition char0 :: "string \<Rightarrow> char" where
  "char0 temp = (case temp of [] \<Rightarrow> CHR 0x00 | c # _ \<Rightarrow> c)"

text \<open>
  \<^verbatim>\<open>temp[2]\<close>: the third byte at the pointer. For a token of three or more bytes it is
  the third byte of the token, for a token of two bytes its terminator, and for a token
  of one byte the byte that follows its terminator in the buffer: the first byte of the
  next token, or a tabulator. Only where the buffer ends with the terminator of a
  one-byte token (the last token of a line without line feed) does \<^verbatim>\<open>temp[2]\<close> lie
  behind the line and its terminator: it is then the byte \<open>behind\<close>, which an earlier,
  longer line has left in the buffer or which nothing has written. The programs compare
  this byte and go on, whatever it is.
\<close>

definition char2 :: "char \<Rightarrow> string \<Rightarrow> char" where
  "char2 behind temp = (if 2 < length temp then temp ! 2 else behind)"

definition isdigit :: "char \<Rightarrow> bool" where
  "isdigit c = (c \<in> set ''0123456789'')"

definition isspace :: "char \<Rightarrow> bool" where
  "isspace c = (c \<in> {CHR 0x20, CHR 0x09, CHR 0x0A, CHR 0x0B, CHR 0x0C, CHR 0x0D})"

fun digits :: "int \<Rightarrow> string \<Rightarrow> int" where
  "digits acc [] = acc"
| "digits acc (c # cs) =
     (if isdigit c then digits (acc * 10 + (of_char c - 48)) cs else acc)"

text \<open>
  \<^verbatim>\<open>atoi\<close>: white space, an optional sign, then the decimal digits up to the first
  other character; 0 when there is no digit. (Values outside the range of \<^verbatim>\<open>int\<close>
  are undefined in C and not modelled.)
\<close>

definition atoi :: "string \<Rightarrow> int" where
  "atoi s = (case dropWhile isspace s of
               [] \<Rightarrow> 0
             | c # cs \<Rightarrow> if c = CHR ''-'' then - digits 0 cs
                         else if c = CHR ''+'' then digits 0 cs
                         else digits 0 (c # cs))"

text \<open>
  The lines \<^verbatim>\<open>getline\<close> returns, one after the other, on the content of a file: each
  runs up to and including a line feed, the last one up to the end of the file.
\<close>

fun getline :: "string \<Rightarrow> string \<Rightarrow> string list" where
  "getline cur [] = (if cur = [] then [] else [rev cur])"
| "getline cur (c # cs) =
     (if c = CHR 0x0A then rev (c # cur) # getline [] cs else getline (c # cur) cs)"

text \<open>The first pass of every loader counts the line feeds of the file.\<close>

definition line_i :: "string \<Rightarrow> nat" where
  "line_i file = length (filter (\<lambda>c. c = CHR 0x0A) file)"

text \<open>
  What stops a run that the C code does not survive or whose outcome C leaves open.
\<close>

datatype error =
    NullDeref      \<comment> \<open>\<^verbatim>\<open>temp[0]\<close>, \<^verbatim>\<open>atoi\<close>, \<^verbatim>\<open>strncpy\<close> or \<^verbatim>\<open>strcmp\<close> on the \<^verbatim>\<open>NULL\<close> of \<^verbatim>\<open>strtok\<close>\<close>
  | HeapOverflow   \<comment> \<open>a write or read past the end of an allocated array\<close>
  | Uninitialised  \<comment> \<open>use of \<^verbatim>\<open>geno\<close> or \<^verbatim>\<open>sfs\<close> before the header line allocated them\<close>

section \<open>The loaders of estDAF.c\<close>








section \<open>The loaders of makeDFE-alpha.c\<close>

text \<open>
  \<^verbatim>\<open>readCoord\<close> of makeDFE-alpha.c (lines 594 to 630) has the text of \<^verbatim>\<open>readCoord\<close> of
  estDAF.c, the unused locals apart: \<open>readCoord\<close> above is both.

  \<^verbatim>\<open>readSites\<close> (lines 692 to 732) looks every site up in the coordinate table and,
  inside the containment branch and when a target table was given, in the target table:
  \<^verbatim>\<open>
  while(coord_i < coord_n){
      if(list[*n][0] == coords[coord_i].chr){
          if(list[*n][1] >= coords[coord_i].start && list[*n][1] <= coords[coord_i].stop){
              if(target_n > 0){
                  brk = 0;
                  while(target_i < target_n){
                      if(list[*n][0] == target[target_i].chr){
                          if(list[*n][1] >= target[target_i].start && list[*n][1] <= target[target_i].stop){
                              *n = *n + 1;
                              brk = 1;
                              break;
                          }
                          else if(list[*n][1] < target[target_i].start)
                              break;
                      }
                      else if(list[*n][0] < target[target_i].chr)
                          break;
                      target_i++;
                  }
                  if(brk == 1)
                      break;
              }
              else{
                  *n = *n + 1;
                  break;
              }
          }
          else if(list[*n][1] < coords[coord_i].start)
              break;
      }
      else if(list[*n][0] < coords[coord_i].chr)
          break;
      coord_i++;
  }
  \<close>
  The loop over the target table is the containment loop \<open>region_loop\<close>; \<^verbatim>\<open>brk\<close> is
  whether it was left through its containment branch. Where it was not, the loop over
  the coordinates is not left: control reaches \<^verbatim>\<open>coord_i++\<close> and the next coordinate
  record is tried. The function returns the two cursors and whether the site was kept
  (\<^verbatim>\<open>*n = *n + 1\<close>).
\<close>

function sites_loop ::
  "Region_s list \<Rightarrow> Region_s list \<Rightarrow> int \<Rightarrow> int \<Rightarrow> nat \<Rightarrow> nat \<Rightarrow> nat \<times> nat \<times> bool" where
  "sites_loop coords target chr pos coord_i target_i =
     (if coord_i < length coords then
        (if chr = r_chr (coords ! coord_i) then
           (if pos \<ge> r_start (coords ! coord_i) \<and> pos \<le> r_stop (coords ! coord_i) then
              (if length target > 0 then
                 (if snd (region_loop target chr pos target_i)
                  then (coord_i, fst (region_loop target chr pos target_i), True)
                  else sites_loop coords target chr pos (coord_i + 1)
                         (fst (region_loop target chr pos target_i)))
               else (coord_i, target_i, True))
            else if pos < r_start (coords ! coord_i) then (coord_i, target_i, False)
            else sites_loop coords target chr pos (coord_i + 1) target_i)
         else if chr < r_chr (coords ! coord_i) then (coord_i, target_i, False)
         else sites_loop coords target chr pos (coord_i + 1) target_i)
      else (coord_i, target_i, False))"
  by pat_completeness auto
termination
  by (relation "measure (\<lambda>(coords, target, chr, pos, coord_i, target_i). length coords - coord_i)")
     auto

declare sites_loop.simps [simp del]

text \<open>
  \<^verbatim>\<open>
  while((read = getline(&line, &len, site_file)) != -1){
      lineTerminator(line);
      if(isdigit(line[0]) == 0)
          continue;
      list[*n][0] = atoi(strtok(line,"\t"));
      list[*n][1] = atoi(strtok(NULL,"\t"));
      ... the loop over the coordinates ...
  }
  \<close>
  \<open>cap\<close> is the number of sites allocated and \<open>list\<close> the sites kept so far.
\<close>

fun readSites_loop ::
  "nat \<Rightarrow> Region_s list \<Rightarrow> Region_s list \<Rightarrow> nat \<Rightarrow> nat \<Rightarrow> (int \<times> int) list \<Rightarrow> string list
     \<Rightarrow> error + (int \<times> int) list" where
  "readSites_loop cap coords target coord_i target_i list [] = Inr list"
| "readSites_loop cap coords target coord_i target_i list (line # rest) =
     (if \<not> isdigit (char0 (lineTerminator line))
      then readSites_loop cap coords target coord_i target_i list rest
      else (case tokens line of
              [] \<Rightarrow> Inl NullDeref
            | t1 # ts \<Rightarrow>
                if cap \<le> length list then Inl HeapOverflow
                else (case ts of
                        [] \<Rightarrow> Inl NullDeref
                      | t2 # _ \<Rightarrow>
                          (case sites_loop coords target (atoi t1) (atoi t2) coord_i target_i of
                             (c, t, kept) \<Rightarrow>
                               readSites_loop cap coords target c t
                                 (if kept then list @ [(atoi t1, atoi t2)] else list) rest))))"

definition readSites :: "Region_s list \<Rightarrow> Region_s list \<Rightarrow> string \<Rightarrow> error + (int \<times> int) list" where
  "readSites coords target site_file =
     readSites_loop (line_i site_file) coords target 0 0 [] (getline [] site_file)"



section \<open>Files and records of the loaders\<close>







section \<open>readVcf of estDAF.c\<close>

text \<open>
  \<^verbatim>\<open>daf = (double)da_i/(double)a_i\<close> divides two doubles that hold counts. The model
  keeps the quotient of two positive counts as the pair of counts, and follows IEC 60559
  (Annex F of the C standard, the arithmetic of the doubles of gcc) where the divisor is
  zero: 0/0 is a NaN and n/0 for a positive n is the positive infinity. No integer is
  divided, so nothing traps.
\<close>

datatype fdouble = NaN | PosInf | Quotient nat nat

definition fdiv :: "nat \<Rightarrow> nat \<Rightarrow> fdouble" where
  "fdiv x y = (if y = 0 then (if x = 0 then NaN else PosInf) else Quotient x y)"

text \<open>
  What \<^verbatim>\<open>printf\<close> writes to the standard output: the header
  \<^verbatim>\<open>"gene\tDAF\tnSites\n"\<close> and the rows \<^verbatim>\<open>"%s\t%f\t%i\n"\<close>.
\<close>

datatype out_line = Header | Row string fdouble nat

text \<open>
  The variables of \<^verbatim>\<open>readVcf\<close> that live across tokens and lines, with what it has
  written to the standard output (\<open>out\<close>) and the warnings it has written to the standard
  error (\<open>err\<close>, the chromosome and position of each). The counters \<^verbatim>\<open>da_i\<close>, \<^verbatim>\<open>a_i\<close>
  and \<^verbatim>\<open>s_i\<close> are \<^verbatim>\<open>int\<close>s that only ever count up from zero; they are natural numbers
  here (the overflow of a signed counter is undefined in C and not modelled).
  \<^verbatim>\<open>gene\<close> is \<^verbatim>\<open>NULL\<close> or points to the \<^verbatim>\<open>id\<close> of a gene record.
\<close>

record daf_state =
  gene_i :: nat
  coord_i :: nat
  div_i :: nat
  ok :: bool
  rd :: bool
  da_i :: nat
  a_i :: nat
  s_i :: nat
  gene :: "string option"
  v_chr :: int
  v_pos :: int
  v_ref :: char
  v_alt :: char
  out :: "out_line list"
  err :: "(int \<times> int) list"

definition daf_init :: daf_state where
  "daf_init = \<lparr>gene_i = 0, coord_i = 0, div_i = 0, ok = False, rd = False,
               da_i = 0, a_i = 0, s_i = 0, gene = None, v_chr = 0, v_pos = 0,
               v_ref = CHR 0x00, v_alt = CHR 0x00, out = [], err = []\<rparr>"

text \<open>
  Lines 300 to 311, reached with \<^verbatim>\<open>gene_i\<close> on the gene that contains the position:
  \<^verbatim>\<open>
  if(gene == NULL){
      gene = genes[gene_i].id;
      printf("gene\tDAF\tnSites\n");
  }
  else if(strcmp(gene, genes[gene_i].id) != 0){
      daf = (double)da_i/(double)a_i;
      printf("%s\t%f\t%i\n", gene, daf, s_i);
      da_i = 0;
      a_i = 0;
      s_i = 0;
      gene = genes[gene_i].id;
  }
  \<close>
\<close>

definition gene_change :: "Region_s list \<Rightarrow> daf_state \<Rightarrow> daf_state" where
  "gene_change genes st =
     (case gene st of
        None \<Rightarrow> st\<lparr>gene := Some (r_id (genes ! gene_i st)), out := out st @ [Header]\<rparr>
      | Some g \<Rightarrow>
          if g \<noteq> r_id (genes ! gene_i st)
          then st\<lparr>out := out st @ [Row g (fdiv (da_i st) (a_i st)) (s_i st)],
                  da_i := 0, a_i := 0, s_i := 0,
                  gene := Some (r_id (genes ! gene_i st))\<rparr>
          else st)"

text \<open>
  Lines 294 to 343: the loop over the genes, inside its containment branch the loop over
  the coordinates, inside that one's containment branch the change of gene, the loop
  over the divergence table and \<^verbatim>\<open>ok = 1\<close>. A loop that is left without containment
  leaves \<^verbatim>\<open>ok\<close> at 0.
\<close>

definition locate :: "Region_s list \<Rightarrow> Region_s list \<Rightarrow> Site_s list \<Rightarrow> daf_state \<Rightarrow> daf_state" where
  "locate genes coords dv st =
     (case region_loop genes (v_chr st) (v_pos st) (gene_i st) of
        (g, in_gene) \<Rightarrow>
          if in_gene then
            (case region_loop coords (v_chr st) (v_pos st) (coord_i st) of
               (c, in_coord) \<Rightarrow>
                 if in_coord then
                   (case div_loop dv (v_chr st) (v_pos st) (div_i st) of
                      (d, in_div) \<Rightarrow>
                        (gene_change genes (st\<lparr>gene_i := g, coord_i := c\<rparr>))
                          \<lparr>div_i := d, rd := (rd st \<or> in_div), ok := True\<rparr>)
                 else st\<lparr>gene_i := g, coord_i := c\<rparr>)
          else st\<lparr>gene_i := g\<rparr>)"

text \<open>
  Lines 358 to 388, the value of \<^verbatim>\<open>ok\<close> after the classification when \<^verbatim>\<open>gc != 0\<close>:
  \<^verbatim>\<open>
  ok = 0;
  if(gc == 3){ if((ref == 'G' && alt == 'C') || (ref == 'C' && alt == 'G')) ok = 1; }
  else if(gc == 4){ if((ref == 'A' && alt == 'T') || (ref == 'T' && alt == 'A')) ok = 1; }
  else if(gc == 5){
      if((ref == 'G' && alt == 'C') || (ref == 'C' && alt == 'G')) ok = 1;
      else if((ref == 'A' && alt == 'T') || (ref == 'T' && alt == 'A')) ok = 1;
  }
  else if(rd == 0){
      if(gc == 1 && (ref == 'A' || ref == 'T') && (alt == 'G' || alt == 'C')) ok = 1;
      else if(gc == 2 && (ref == 'G' || ref == 'C') && (alt == 'A' || alt == 'T')) ok = 1;
  }
  else{
      if(gc == 1 && (ref == 'G' || ref == 'C') && (alt == 'A' || alt == 'T')) ok = 1;
      else if(gc == 2 && (ref == 'A' || ref == 'T') && (alt == 'G' || alt == 'C')) ok = 1;
  }
  \<close>
\<close>

definition daf_class :: "int \<Rightarrow> bool \<Rightarrow> char \<Rightarrow> char \<Rightarrow> bool" where
  "daf_class gc rd' ref alt =
     (if gc = 3 then (ref = CHR ''G'' \<and> alt = CHR ''C'') \<or> (ref = CHR ''C'' \<and> alt = CHR ''G'')
      else if gc = 4 then (ref = CHR ''A'' \<and> alt = CHR ''T'') \<or> (ref = CHR ''T'' \<and> alt = CHR ''A'')
      else if gc = 5 then
        (if (ref = CHR ''G'' \<and> alt = CHR ''C'') \<or> (ref = CHR ''C'' \<and> alt = CHR ''G'') then True
         else (ref = CHR ''A'' \<and> alt = CHR ''T'') \<or> (ref = CHR ''T'' \<and> alt = CHR ''A''))
      else if \<not> rd' then
        (if gc = 1 \<and> (ref = CHR ''A'' \<or> ref = CHR ''T'') \<and> (alt = CHR ''G'' \<or> alt = CHR ''C'') then True
         else gc = 2 \<and> (ref = CHR ''G'' \<or> ref = CHR ''C'') \<and> (alt = CHR ''A'' \<or> alt = CHR ''T''))
      else
        (if gc = 1 \<and> (ref = CHR ''G'' \<or> ref = CHR ''C'') \<and> (alt = CHR ''A'' \<or> alt = CHR ''T'') then True
         else gc = 2 \<and> (ref = CHR ''A'' \<or> ref = CHR ''T'') \<and> (alt = CHR ''G'' \<or> alt = CHR ''C'')))"

text \<open>
  \<^verbatim>\<open>temp[0] == c && temp[2] == c\<close> and \<^verbatim>\<open>temp[0] != '.' && temp[2] != '.'\<close> on a
  genotype token.
\<close>

definition hom :: "char \<Rightarrow> char \<Rightarrow> string \<Rightarrow> bool" where
  "hom behind c temp = (char0 temp = c \<and> char2 behind temp = c)"

definition called :: "char \<Rightarrow> string \<Rightarrow> bool" where
  "called behind temp = (char0 temp \<noteq> CHR ''.'' \<and> char2 behind temp \<noteq> CHR ''.'')"

text \<open>
  Lines 390 to 397, a genotype column:
  \<^verbatim>\<open>
  if(rd == 1 && (temp[0] == '0' && temp[2] == '0'))
      da_i++;
  else if(rd == 0 && (temp[0] == '1' && temp[2] == '1'))
      da_i++;
  if(temp[0] != '.' && temp[2] != '.')
      a_i++;
  \<close>
\<close>

definition daf_sample :: "char \<Rightarrow> daf_state \<Rightarrow> string \<Rightarrow> daf_state" where
  "daf_sample behind st temp =
     st\<lparr>da_i := (if rd st \<and> hom behind (CHR ''0'') temp then da_i st + 1
                 else if \<not> rd st \<and> hom behind (CHR ''1'') temp then da_i st + 1
                 else da_i st),
        a_i := (if called behind temp then a_i st + 1 else a_i st)\<rparr>"

text \<open>
  The body of the loop over the tokens of a line, for the token \<open>temp\<close> in column \<open>i\<close>
  (lines 290 to 397): the new state and whether the loop goes on (\<open>True\<close>) or is left by
  \<^verbatim>\<open>break\<close> (\<open>False\<close>).
\<close>

definition daf_body ::
  "char \<Rightarrow> Region_s list \<Rightarrow> Region_s list \<Rightarrow> Site_s list \<Rightarrow> int \<Rightarrow> nat \<Rightarrow> daf_state \<Rightarrow> string
     \<Rightarrow> error + bool \<times> daf_state" where
  "daf_body behind genes coords dv gc i st temp =
     (if i = 2 then
        (let st' = locate genes coords dv (st\<lparr>v_pos := atoi temp, ok := False, rd := False\<rparr>)
         in Inr (ok st', st'))
      else if i = 4 then
        (let st' = st\<lparr>v_ref := char0 temp\<rparr>
         in if rd st' \<and> v_ref st' \<noteq> s_ref (dv ! div_i st')
            then Inr (False, st'\<lparr>err := err st' @ [(v_chr st', v_pos st')]\<rparr>)
            else Inr (True, st'))
      else if i = 5 then
        (let st' = st\<lparr>v_alt := char0 temp\<rparr>
         in if rd st' \<and> v_alt st' \<noteq> s_alt (dv ! div_i st') then Inr (False, st')
            else if gc \<noteq> 0
            then (let st'' = st'\<lparr>ok := daf_class gc (rd st') (v_ref st') (v_alt st')\<rparr>
                  in Inr (ok st'', st''))
            else Inr (True, st'))
      else if i > 9 then
        Inr (True, daf_sample behind st temp)
      else Inr (True, st))"

text \<open>
  \<^verbatim>\<open>
  while(temp != NULL){
      ... the body ...
      temp = strtok(NULL,"\t");
      i++;
      if(temp == NULL)
          s_i++;
  }
  \<close>
  on the tokens from \<open>temp\<close> on.
\<close>

fun daf_tokens ::
  "char \<Rightarrow> Region_s list \<Rightarrow> Region_s list \<Rightarrow> Site_s list \<Rightarrow> int \<Rightarrow> nat \<Rightarrow> daf_state \<Rightarrow> string list
     \<Rightarrow> error + daf_state" where
  "daf_tokens behind genes coords dv gc i st [] = Inr st"
| "daf_tokens behind genes coords dv gc i st (temp # rest) =
     (case daf_body behind genes coords dv gc i st temp of
        Inl e \<Rightarrow> Inl e
      | Inr (go_on, st') \<Rightarrow>
          if \<not> go_on then Inr st'
          else if rest = [] then Inr (st'\<lparr>s_i := s_i st' + 1\<rparr>)
          else daf_tokens behind genes coords dv gc (i + 1) st' rest)"

text \<open>
  One line of the variant file (lines 284 to 403): a line whose first token does not
  start with a digit is passed over; a line without a token makes \<^verbatim>\<open>temp[0]\<close> read
  through \<^verbatim>\<open>NULL\<close>.
\<close>

definition daf_line ::
  "char \<Rightarrow> Region_s list \<Rightarrow> Region_s list \<Rightarrow> Site_s list \<Rightarrow> int \<Rightarrow> daf_state \<Rightarrow> string
     \<Rightarrow> error + daf_state" where
  "daf_line behind genes coords dv gc st line =
     (case tokens line of
        [] \<Rightarrow> Inl NullDeref
      | temp # rest \<Rightarrow>
          if isdigit (char0 temp)
          then daf_tokens behind genes coords dv gc 1 (st\<lparr>v_chr := atoi temp\<rparr>) (temp # rest)
          else Inr st)"

fun daf_lines ::
  "char \<Rightarrow> Region_s list \<Rightarrow> Region_s list \<Rightarrow> Site_s list \<Rightarrow> int \<Rightarrow> daf_state \<Rightarrow> string list
     \<Rightarrow> error + daf_state" where
  "daf_lines behind genes coords dv gc st [] = Inr st"
| "daf_lines behind genes coords dv gc st (line # rest) =
     (case daf_line behind genes coords dv gc st line of
        Inl e \<Rightarrow> Inl e
      | Inr st' \<Rightarrow> daf_lines behind genes coords dv gc st' rest)"

text \<open>
  \<^verbatim>\<open>readVcf\<close> of estDAF.c on the lines of the variant file: the state in which the loop
  over the lines ends. Nothing is printed after the loop (lines 406 to 410 free the
  tables and close the file), so \<open>out\<close> of this state is the whole output.
\<close>

definition readVcf_estDAF ::
  "char \<Rightarrow> Region_s list \<Rightarrow> Region_s list \<Rightarrow> Site_s list \<Rightarrow> int \<Rightarrow> string list \<Rightarrow> error + daf_state" where
  "readVcf_estDAF behind genes coords dv gc vcf_lines = daf_lines behind genes coords dv gc daf_init vcf_lines"

section \<open>readVcf of makeDFE-alpha.c\<close>

text \<open>
  The variables of \<^verbatim>\<open>readVcf\<close> of makeDFE-alpha.c, each under its name with \<open>m_\<close> in
  front, and the warnings written to the standard error. \<^verbatim>\<open>geno\<close> and \<^verbatim>\<open>sfs\<close> are
  pointers without a value until the header line allocates the arrays (\<open>None\<close>); a cell of
  \<^verbatim>\<open>geno\<close> has no value until a genotype is stored in it (\<open>None\<close>). \<^verbatim>\<open>sfs\<close>, \<^verbatim>\<open>di\<close> and
  \<^verbatim>\<open>si\<close> are doubles that are set to zero and then only incremented by one: they hold
  natural numbers, exactly, up to \<open>2 ^ 53\<close>, and are natural numbers here.
\<close>

record sfs_state =
  m_site_i :: nat
  m_div_i :: nat
  m_ok :: bool
  m_rd :: bool
  m_chr :: int
  m_pos :: int
  m_ref :: char
  m_alt :: char
  m_i :: nat
  m_i0 :: nat
  m_i1 :: nat
  m_ind_i :: nat
  m_geno :: "int option list option"
  m_sfs :: "nat list option"
  m_di :: nat
  m_si :: nat
  m_err :: "(int \<times> int) list"

definition sfs_init :: sfs_state where
  "sfs_init = \<lparr>m_site_i = 0, m_div_i = 0, m_ok = False, m_rd = False, m_chr = 0, m_pos = 0,
               m_ref = CHR 0x00, m_alt = CHR 0x00, m_i = 0, m_i0 = 0, m_i1 = 0, m_ind_i = 0,
               m_geno = None, m_sfs = None, m_di = 0, m_si = 0, m_err = []\<rparr>"

text \<open>
  The header line (lines 807 to 828): every token from the tenth on counts one more
  individual, then the two arrays are allocated and \<^verbatim>\<open>sfs\<close> is set to zero.
  \<^verbatim>\<open>
  i = 1;
  while(temp != NULL){
      if(i > 9)
          ind_i++;
      temp = strtok(NULL,"\t");
      i++;
  }
  geno = malloc(ind_i*sizeof(int));
  sfs = malloc((ind_i+1)*sizeof(double));
  for(i=0;i<=ind_i;i++)
      sfs[i] = 0;
  \<close>
\<close>

definition sfs_header :: "sfs_state \<Rightarrow> string list \<Rightarrow> sfs_state" where
  "sfs_header st toks =
     (let n = m_ind_i st + length (drop 9 toks)
      in st\<lparr>m_ind_i := n, m_geno := Some (replicate n None), m_sfs := Some (replicate (n + 1) 0)\<rparr>)"

text \<open>Lines 840 to 865: the loop over the sites and, inside its equality branch, the loop
  over the divergence table and \<^verbatim>\<open>ok = 1\<close>.\<close>

definition sfs_locate :: "(int \<times> int) list \<Rightarrow> Site_s list \<Rightarrow> sfs_state \<Rightarrow> sfs_state" where
  "sfs_locate sites dv st =
     (case site_loop sites (m_chr st) (m_pos st) (m_site_i st) of
        (s, at_site) \<Rightarrow>
          if at_site then
            (case div_loop dv (m_chr st) (m_pos st) (m_div_i st) of
               (d, in_div) \<Rightarrow>
                 st\<lparr>m_site_i := s, m_div_i := d, m_rd := (m_rd st \<or> in_div), m_ok := True\<rparr>)
          else st\<lparr>m_site_i := s\<rparr>)"

text \<open>
  Lines 885 to 910, the value of \<^verbatim>\<open>ok\<close> after the classification; here \<^verbatim>\<open>'.'\<close> counts
  for either class.
  \<^verbatim>\<open>
  if(gc == 3){
      if((ref == 'G' || ref == 'C' || ref == '.') && (alt == 'G' || alt == 'C' || alt == '.')) ok = 1;
  }
  else if(gc == 4){
      if((ref == 'A' || ref == 'T' || ref == '.') && (alt == 'A' || alt == 'T' || alt == '.')) ok = 1;
  }
  else if(gc == 5){
      if((ref == 'G' || ref == 'C' || ref == '.') && (alt == 'G' || alt == 'C' || alt == '.')) ok = 1;
      else if((ref == 'A' || ref == 'T' || ref == '.') && (alt == 'A' || alt == 'T' || alt == '.')) ok = 1;
  }
  else if(rd == 0){
      if(gc == 1 && (ref == 'A' || ref == 'T' || ref == '.') && (alt == 'G' || alt == 'C' || alt == '.')) ok = 1;
      else if(gc == 2 && (ref == 'G' || ref == 'C' || ref == '.') && (alt == 'A' || alt == 'T' || alt == '.')) ok = 1;
  }
  else if(rd == 1){
      if(gc == 1 && (ref == 'G' || ref == 'C' || ref == '.') && (alt == 'A' || alt == 'T' || alt == '.')) ok = 1;
      else if(gc == 2 && (ref == 'A' || ref == 'T' || ref == '.') && (alt == 'G' || alt == 'C' || alt == '.')) ok = 1;
  }
  \<close>
\<close>

definition strong :: "char \<Rightarrow> bool" where
  "strong x = (x = CHR ''G'' \<or> x = CHR ''C'' \<or> x = CHR ''.'')"

definition weak :: "char \<Rightarrow> bool" where
  "weak x = (x = CHR ''A'' \<or> x = CHR ''T'' \<or> x = CHR ''.'')"

definition sfs_class :: "int \<Rightarrow> bool \<Rightarrow> char \<Rightarrow> char \<Rightarrow> bool" where
  "sfs_class gc rd' ref alt =
     (if gc = 3 then strong ref \<and> strong alt
      else if gc = 4 then weak ref \<and> weak alt
      else if gc = 5 then (if strong ref \<and> strong alt then True else weak ref \<and> weak alt)
      else if \<not> rd' then
        (if gc = 1 \<and> weak ref \<and> strong alt then True else gc = 2 \<and> strong ref \<and> weak alt)
      else
        (if gc = 1 \<and> strong ref \<and> weak alt then True else gc = 2 \<and> weak ref \<and> strong alt))"

text \<open>
  Lines 915 to 927, a genotype column:
  \<^verbatim>\<open>
  if(temp[0] == '1' && temp[2] == '1'){ geno[i] = 1; i1++; }
  else if(temp[0] == '0' && temp[2] == '0'){ geno[i] = 0; i0++; }
  else geno[i] = 9;
  i++;
  \<close>
\<close>

definition sfs_store :: "sfs_state \<Rightarrow> int \<Rightarrow> error + sfs_state" where
  "sfs_store st v =
     (case m_geno st of
        None \<Rightarrow> Inl Uninitialised
      | Some g \<Rightarrow>
          if m_i st < length g
          then Inr (st\<lparr>m_geno := Some (g[m_i st := Some v]), m_i := m_i st + 1\<rparr>)
          else Inl HeapOverflow)"

definition sfs_sample :: "char \<Rightarrow> sfs_state \<Rightarrow> string \<Rightarrow> error + sfs_state" where
  "sfs_sample behind st temp =
     (if hom behind (CHR ''1'') temp then sfs_store (st\<lparr>m_i1 := m_i1 st + 1\<rparr>) 1
      else if hom behind (CHR ''0'') temp then sfs_store (st\<lparr>m_i0 := m_i0 st + 1\<rparr>) 0
      else sfs_store st 9)"

text \<open>
  The body of the loop over the tokens of a line (lines 838 to 927), for the token
  \<open>temp\<close> in column \<open>j\<close>: the new state and whether the loop goes on.
\<close>

definition sfs_body ::
  "char \<Rightarrow> (int \<times> int) list \<Rightarrow> Site_s list \<Rightarrow> int \<Rightarrow> nat \<Rightarrow> sfs_state \<Rightarrow> string
     \<Rightarrow> error + bool \<times> sfs_state" where
  "sfs_body behind sites dv gc j st temp =
     (if j = 2 then
        (let st' = sfs_locate sites dv (st\<lparr>m_pos := atoi temp\<rparr>)
         in Inr (m_ok st', st'))
      else if j = 4 then
        (let st' = st\<lparr>m_ref := char0 temp\<rparr>
         in if m_rd st' \<and> m_ref st' \<noteq> s_ref (dv ! m_div_i st')
            then Inr (False, st'\<lparr>m_err := m_err st' @ [(m_chr st', m_pos st')], m_ok := False\<rparr>)
            else Inr (True, st'))
      else if j = 5 then
        (let st' = st\<lparr>m_alt := char0 temp\<rparr>
         in if gc \<noteq> 0 then
              (if m_rd st' \<and> m_alt st' \<noteq> s_alt (dv ! m_div_i st') then Inr (False, st'\<lparr>m_ok := False\<rparr>)
               else if m_ref st' = CHR ''.'' \<and> m_alt st' = CHR ''.'' then Inr (False, st'\<lparr>m_ok := False\<rparr>)
               else (let st'' = st'\<lparr>m_ok := sfs_class gc (m_rd st') (m_ref st') (m_alt st')\<rparr>
                     in Inr (m_ok st'', st'')))
            else Inr (True, st'))
      else if j > 9 then
        (case sfs_sample behind st temp of Inl e \<Rightarrow> Inl e | Inr st' \<Rightarrow> Inr (True, st'))
      else Inr (True, st))"

fun sfs_tokens ::
  "char \<Rightarrow> (int \<times> int) list \<Rightarrow> Site_s list \<Rightarrow> int \<Rightarrow> nat \<Rightarrow> sfs_state \<Rightarrow> string list
     \<Rightarrow> error + sfs_state" where
  "sfs_tokens behind sites dv gc j st [] = Inr st"
| "sfs_tokens behind sites dv gc j st (temp # rest) =
     (case sfs_body behind sites dv gc j st temp of
        Inl e \<Rightarrow> Inl e
      | Inr (go_on, st') \<Rightarrow>
          if \<not> go_on then Inr st' else sfs_tokens behind sites dv gc (j + 1) st' rest)"

text \<open>
  Lines 933 to 942 on the cells \<^verbatim>\<open>geno[0]\<close> to \<^verbatim>\<open>geno[ind_i-1]\<close>, from \<open>count\<close> on:
  \<^verbatim>\<open>
  for(i=0;i<ind_i;i++){
      if(rd == 0 && geno[i] == 1) count++;
      else if(rd == 0 && geno[i] == 9 && i1 > i0) count++;
      else if(rd == 1 && geno[i] == 0) count++;
      else if(rd == 1 && geno[i] == 9 && i0 > i1) count++;
  }
  \<close>
\<close>

fun count_loop :: "bool \<Rightarrow> nat \<Rightarrow> nat \<Rightarrow> int option list \<Rightarrow> nat \<Rightarrow> error + nat" where
  "count_loop rd' i0 i1 [] count = Inr count"
| "count_loop rd' i0 i1 (None # geno) count = Inl Uninitialised"
| "count_loop rd' i0 i1 (Some g # geno) count =
     count_loop rd' i0 i1 geno
       (if \<not> rd' \<and> g = 1 then count + 1
        else if \<not> rd' \<and> g = 9 \<and> i1 > i0 then count + 1
        else if rd' \<and> g = 0 then count + 1
        else if rd' \<and> g = 9 \<and> i0 > i1 then count + 1
        else count)"

text \<open>
  Lines 931 to 947, after the tokens of a data line:
  \<^verbatim>\<open>
  if(ok == 0)
      continue;
  for(i=0;i<ind_i;i++){ ... }
  sfs[count]++;
  count = 0;
  if(rd == 1)
      di++;
  si++;
  \<close>
\<close>

definition sfs_site :: "sfs_state \<Rightarrow> error + sfs_state" where
  "sfs_site st =
     (if \<not> m_ok st then Inr st
      else
        (case (case m_geno st of
                 None \<Rightarrow> if m_ind_i st = 0 then Inr 0 else Inl Uninitialised
               | Some g \<Rightarrow>
                   if m_ind_i st \<le> length g
                   then count_loop (m_rd st) (m_i0 st) (m_i1 st) (take (m_ind_i st) g) 0
                   else Inl HeapOverflow) of
           Inl e \<Rightarrow> Inl e
         | Inr count \<Rightarrow>
             (case m_sfs st of
                None \<Rightarrow> Inl Uninitialised
              | Some sfs \<Rightarrow>
                  if count < length sfs
                  then Inr (st\<lparr>m_sfs := Some (sfs[count := sfs ! count + 1]),
                               m_di := (if m_rd st then m_di st + 1 else m_di st),
                               m_si := m_si st + 1\<rparr>)
                  else Inl HeapOverflow)))"

text \<open>
  One line of the variant file (lines 803 to 948): the header line, a data line (first
  token starting with a digit), or a line that is passed over.
\<close>

definition sfs_line ::
  "char \<Rightarrow> (int \<times> int) list \<Rightarrow> Site_s list \<Rightarrow> int \<Rightarrow> sfs_state \<Rightarrow> string \<Rightarrow> error + sfs_state" where
  "sfs_line behind sites dv gc st line =
     (case tokens line of
        [] \<Rightarrow> Inl NullDeref
      | temp # rest \<Rightarrow>
          if cstring temp = ''#CHROM'' then Inr (sfs_header st (temp # rest))
          else if isdigit (char0 temp) then
            (case sfs_tokens behind sites dv gc 1
                    (st\<lparr>m_chr := atoi temp, m_i := 0, m_i1 := 0, m_i0 := 0,
                        m_ok := False, m_rd := False\<rparr>) (temp # rest) of
               Inl e \<Rightarrow> Inl e
             | Inr st' \<Rightarrow> sfs_site st')
          else Inr st)"

fun sfs_lines ::
  "char \<Rightarrow> (int \<times> int) list \<Rightarrow> Site_s list \<Rightarrow> int \<Rightarrow> sfs_state \<Rightarrow> string list \<Rightarrow> error + sfs_state" where
  "sfs_lines behind sites dv gc st [] = Inr st"
| "sfs_lines behind sites dv gc st (line # rest) =
     (case sfs_line behind sites dv gc st line of
        Inl e \<Rightarrow> Inl e
      | Inr st' \<Rightarrow> sfs_lines behind sites dv gc st' rest)"

text \<open>
  Lines 951 to 954, what is printed at the end of the stream: the cells \<^verbatim>\<open>sfs[0]\<close> to
  \<^verbatim>\<open>sfs[ind_i]\<close>, then \<^verbatim>\<open>si\<close> and \<^verbatim>\<open>di\<close>.
\<close>

definition sfs_print :: "sfs_state \<Rightarrow> error + nat list \<times> nat \<times> nat" where
  "sfs_print st =
     (case m_sfs st of
        None \<Rightarrow> Inl Uninitialised
      | Some sfs \<Rightarrow>
          if m_ind_i st < length sfs
          then Inr (map (\<lambda>i. sfs ! i) [0 ..< m_ind_i st + 1], m_si st, m_di st)
          else Inl HeapOverflow)"

definition readVcf_makeDFE ::
  "char \<Rightarrow> (int \<times> int) list \<Rightarrow> Site_s list \<Rightarrow> int \<Rightarrow> string list \<Rightarrow> error + nat list \<times> nat \<times> nat" where
  "readVcf_makeDFE behind sites dv gc vcf_lines =
     (case sfs_lines behind sites dv gc sfs_init vcf_lines of
        Inl e \<Rightarrow> Inl e
      | Inr st \<Rightarrow> sfs_print st)"

section \<open>Invariants\<close>

text \<open>
  A ratio that \<^verbatim>\<open>(double)da_i/(double)a_i\<close> can give when the numerator does not
  exceed the denominator: a NaN or a quotient of a count by a positive count, never an
  infinity.
\<close>

definition ratio_ok :: "fdouble \<Rightarrow> bool" where
  "ratio_ok r = (case r of NaN \<Rightarrow> True | PosInf \<Rightarrow> False | Quotient x y \<Rightarrow> 0 < y \<and> x \<le> y)"

text \<open>The invariant of the loop over the lines in estDAF.c: the derived calls of the
  current gene are among its callable calls, and so were those of every row printed.\<close>

definition daf_inv :: "daf_state \<Rightarrow> bool" where
  "daf_inv st = (da_i st \<le> a_i st \<and> (\<forall>g r n. Row g r n \<in> set (out st) \<longrightarrow> ratio_ok r))"

text \<open>The header line of a variant file is the line whose first token is \<^verbatim>\<open>#CHROM\<close>.\<close>

definition is_header :: "string \<Rightarrow> bool" where
  "is_header line = (case tokens line of [] \<Rightarrow> False | temp # _ \<Rightarrow> cstring temp = ''#CHROM'')"

text \<open>
  What the tokens of a data line leave alone in makeDFE-alpha.c: the histogram, the two
  totals, the number of individuals, and whether and how long \<^verbatim>\<open>geno\<close> is.
\<close>

definition sfs_frame :: "sfs_state \<Rightarrow> sfs_state \<Rightarrow> bool" where
  "sfs_frame st st' =
     (m_sfs st' = m_sfs st \<and> m_si st' = m_si st \<and> m_di st' = m_di st \<and>
      m_ind_i st' = m_ind_i st \<and> map_option length (m_geno st') = map_option length (m_geno st))"

text \<open>Before the header line nothing is allocated and nothing is counted.\<close>

definition sfs_before :: "sfs_state \<Rightarrow> bool" where
  "sfs_before st = (m_sfs st = None \<and> m_si st = 0 \<and> m_di st = 0 \<and> m_ind_i st = 0)"

text \<open>
  From the header line on: the histogram has one cell more than there are individuals,
  \<^verbatim>\<open>geno\<close> has one cell for each, the cells of the histogram add up to \<^verbatim>\<open>si\<close>, and
  \<^verbatim>\<open>di\<close> does not exceed \<^verbatim>\<open>si\<close>.
\<close>

definition sfs_inv :: "sfs_state \<Rightarrow> bool" where
  "sfs_inv st =
     (m_di st \<le> m_si st \<and>
      (\<exists>sfs g. m_sfs st = Some sfs \<and> m_geno st = Some g \<and> length sfs = m_ind_i st + 1 \<and>
               length g = m_ind_i st \<and> sum_list sfs = m_si st))"

section \<open>Example inputs\<close>

text \<open>A line of a tab-delimited file: the fields, separated by tabulators, and a line feed.\<close>

fun tabs :: "string list \<Rightarrow> string" where
  "tabs [] = [CHR 0x0A]"
| "tabs [x] = x @ [CHR 0x0A]"
| "tabs (x # y # xs) = x @ [CHR 0x09] @ tabs (y # xs)"

definition ex_genes :: "Region_s list" where
  "ex_genes = [\<lparr>r_chr = 1, r_start = 10, r_stop = 20, r_id = ''g1''\<rparr>,
               \<lparr>r_chr = 1, r_start = 30, r_stop = 40, r_id = ''g2''\<rparr>,
               \<lparr>r_chr = 2, r_start = 5, r_stop = 9, r_id = ''g3''\<rparr>]"

definition ex_coords :: "Region_s list" where
  "ex_coords = [\<lparr>r_chr = 1, r_start = 1, r_stop = 1000, r_id = []\<rparr>,
                \<lparr>r_chr = 2, r_start = 1, r_stop = 1000, r_id = []\<rparr>]"

definition ex_div :: "Site_s list" where
  "ex_div = [\<lparr>s_chr = 1, s_pos = 15, s_ref = CHR ''G'', s_alt = CHR ''A''\<rparr>,
             \<lparr>s_chr = 1, s_pos = 35, s_ref = CHR ''A'', s_alt = CHR ''G''\<rparr>,
             \<lparr>s_chr = 2, s_pos = 7, s_ref = CHR ''C'', s_alt = CHR ''T''\<rparr>]"

definition ex_sites :: "(int \<times> int) list" where
  "ex_sites = [(1, 12), (1, 15), (1, 35), (2, 7)]"

text \<open>The header line of a variant file with three individuals, and a data line on
  chromosome 1 with the given position, alleles and genotype columns.\<close>

definition ex_header :: string where
  "ex_header = tabs [''#CHROM'', ''POS'', ''ID'', ''REF'', ''ALT'', ''QUAL'', ''FILTER'',
                     ''INFO'', ''FORMAT'', ''s1'', ''s2'', ''s3'']"

definition ex_line :: "string \<Rightarrow> string \<Rightarrow> string \<Rightarrow> string list \<Rightarrow> string" where
  "ex_line pos ref alt gts = tabs ([''1'', pos, ''.'', ref, alt, ''.'', ''.'', ''.'', ''GT''] @ gts)"






text \<open>The state of estDAF.c after the header and a line at position 12 (gene \<open>g1\<close>) that
  the mode SS drops: \<open>g1\<close> is the current gene and has no callable call.\<close>

definition ex_daf_empty_gene :: daf_state where
  "ex_daf_empty_gene =
     \<lparr>gene_i = 0, coord_i = 0, div_i = 0, ok = False, rd = False, da_i = 0, a_i = 0, s_i = 0,
      gene = Some ''g1'', v_chr = 1, v_pos = 12, v_ref = CHR ''A'', v_alt = CHR ''G'',
      out = [Header], err = []\<rparr>"

text \<open>A variant file: a line of meta-information, the header line and three data lines.\<close>

definition ex_meta :: string where
  "ex_meta = tabs [''##fileformat=VCFv4.2'']"

definition ex_data :: "string list" where
  "ex_data = [ex_line ''12'' ''A'' ''G'' [''1/1'', ''0/0'', ''./.''],
              ex_line ''15'' ''G'' ''A'' [''0/0'', ''0/0'', ''1/1''],
              ex_line ''35'' ''A'' ''G'' [''1/1'', ''1/1'', ''1/1'']]"





text \<open>Two coordinate blocks and a target region of chromosome 1, in order, and a site
  file with the positions 50 and 150 of chromosome 1.\<close>

definition ex_blocks :: "Region_s list" where
  "ex_blocks = [\<lparr>r_chr = 1, r_start = 1, r_stop = 1000, r_id = []\<rparr>,
                \<lparr>r_chr = 1, r_start = 2000, r_stop = 3000, r_id = []\<rparr>]"

definition ex_target :: "Region_s list" where
  "ex_target = [\<lparr>r_chr = 1, r_start = 100, r_stop = 200, r_id = []\<rparr>]"

definition ex_site_file :: string where
  "ex_site_file = tabs [''1'', ''50''] @ tabs [''1'', ''150'']"

text \<open>A variant file in which the header line comes a second time, after a data line,
  and a data line with six genotype columns.\<close>

definition ex_two_headers :: "string list" where
  "ex_two_headers = [ex_header, ex_line ''12'' ''A'' ''G'' [''1/1'', ''0/0'', ''./.''], ex_header]"

definition ex_six_calls :: string where
  "ex_six_calls = ex_line ''15'' ''G'' ''A'' [''0/0'', ''0/0'', ''0/0'', ''0/0'', ''0/0'', ''0/0'']"

section \<open>The wording of the specification, for comparison\<close>






section \<open>Properties of the cursor loops\<close>

lemma region_loop_forward: "i \<le> fst (region_loop tbl chr pos i)"
proof (induction tbl chr pos i rule: region_loop.induct)
  case (1 tbl chr pos i)
  show ?case
    using "1.IH" by (subst region_loop.simps) (auto intro: Suc_leD)
qed

lemma div_loop_forward: "i \<le> fst (div_loop tbl chr pos i)"
proof (induction tbl chr pos i rule: div_loop.induct)
  case (1 tbl chr pos i)
  show ?case
    using "1.IH" by (subst div_loop.simps) (auto intro: Suc_leD)
qed

lemma site_loop_forward: "i \<le> fst (site_loop tbl chr pos i)"
proof (induction tbl chr pos i rule: site_loop.induct)
  case (1 tbl chr pos i)
  show ?case
    using "1.IH" by (subst site_loop.simps) (auto intro: Suc_leD)
qed

text \<open>
  A loop either stays on the record under the cursor or steps over it, and it steps
  over it exactly when the record lies before the query: on an earlier chromosome, or on
  the same one and ending (for a site: lying) before the position.
\<close>

lemma region_loop_stay:
  "fst (region_loop tbl chr p i) = i \<or>
   (i < length tbl \<and> region_loop tbl chr p i = region_loop tbl chr p (i + 1) \<and>
     (r_chr (tbl ! i) < chr \<or>
      chr = r_chr (tbl ! i) \<and> r_stop (tbl ! i) < p \<and> r_start (tbl ! i) \<le> p))"
  by (subst (1 2) region_loop.simps) auto

lemma region_loop_skip:
  "i < length tbl \<Longrightarrow>
   r_chr (tbl ! i) < chr \<or> chr = r_chr (tbl ! i) \<and> r_stop (tbl ! i) < p \<and> r_start (tbl ! i) \<le> p \<Longrightarrow>
   region_loop tbl chr p i = region_loop tbl chr p (i + 1)"
  by (subst region_loop.simps) auto

lemma div_loop_stay:
  "fst (div_loop tbl chr p i) = i \<or>
   (i < length tbl \<and> div_loop tbl chr p i = div_loop tbl chr p (i + 1) \<and>
     (s_chr (tbl ! i) < chr \<or> chr = s_chr (tbl ! i) \<and> s_pos (tbl ! i) < p))"
  by (subst (1 2) div_loop.simps) auto

lemma div_loop_skip:
  "i < length tbl \<Longrightarrow> s_chr (tbl ! i) < chr \<or> chr = s_chr (tbl ! i) \<and> s_pos (tbl ! i) < p \<Longrightarrow>
   div_loop tbl chr p i = div_loop tbl chr p (i + 1)"
  by (subst div_loop.simps) auto

lemma site_loop_stay:
  "fst (site_loop tbl chr p i) = i \<or>
   (i < length tbl \<and> site_loop tbl chr p i = site_loop tbl chr p (i + 1) \<and>
     (fst (tbl ! i) < chr \<or> chr = fst (tbl ! i) \<and> snd (tbl ! i) < p))"
  by (subst (1 2) site_loop.simps) auto

lemma site_loop_skip:
  "i < length tbl \<Longrightarrow> fst (tbl ! i) < chr \<or> chr = fst (tbl ! i) \<and> snd (tbl ! i) < p \<Longrightarrow>
   site_loop tbl chr p i = site_loop tbl chr p (i + 1)"
  by (subst site_loop.simps) auto

text \<open>
  A record stepped over for a position is stepped over for every later position of the
  same chromosome. So the later query finds the same record, or none, whether the scan
  starts where the earlier query left the cursor or where the earlier query started.
\<close>

lemma region_loop_resume:
  "p1 < p2 \<Longrightarrow>
   region_loop tbl chr p2 (fst (region_loop tbl chr p1 i)) = region_loop tbl chr p2 i"
proof (induction tbl chr p1 i rule: region_loop.induct)
  case (1 tbl chr p1 i)
  from region_loop_stay[of tbl chr p1 i] show ?case
  proof
    assume "fst (region_loop tbl chr p1 i) = i"
    then show ?thesis by simp
  next
    assume a: "i < length tbl \<and> region_loop tbl chr p1 i = region_loop tbl chr p1 (i + 1) \<and>
      (r_chr (tbl ! i) < chr \<or>
       chr = r_chr (tbl ! i) \<and> r_stop (tbl ! i) < p1 \<and> r_start (tbl ! i) \<le> p1)"
    then have later: "region_loop tbl chr p2 i = region_loop tbl chr p2 (i + 1)"
      using "1.prems" by (intro region_loop_skip) auto
    have "region_loop tbl chr p2 (fst (region_loop tbl chr p1 (i + 1))) =
          region_loop tbl chr p2 (i + 1)"
      using a "1.IH" "1.prems" by auto
    with a later show ?thesis by simp
  qed
qed

lemma div_loop_resume:
  "p1 < p2 \<Longrightarrow> div_loop tbl chr p2 (fst (div_loop tbl chr p1 i)) = div_loop tbl chr p2 i"
proof (induction tbl chr p1 i rule: div_loop.induct)
  case (1 tbl chr p1 i)
  from div_loop_stay[of tbl chr p1 i] show ?case
  proof
    assume "fst (div_loop tbl chr p1 i) = i"
    then show ?thesis by simp
  next
    assume a: "i < length tbl \<and> div_loop tbl chr p1 i = div_loop tbl chr p1 (i + 1) \<and>
      (s_chr (tbl ! i) < chr \<or> chr = s_chr (tbl ! i) \<and> s_pos (tbl ! i) < p1)"
    then have later: "div_loop tbl chr p2 i = div_loop tbl chr p2 (i + 1)"
      using "1.prems" by (intro div_loop_skip) auto
    have "div_loop tbl chr p2 (fst (div_loop tbl chr p1 (i + 1))) = div_loop tbl chr p2 (i + 1)"
      using a "1.IH" "1.prems" by auto
    with a later show ?thesis by simp
  qed
qed

lemma site_loop_resume:
  "p1 < p2 \<Longrightarrow> site_loop tbl chr p2 (fst (site_loop tbl chr p1 i)) = site_loop tbl chr p2 i"
proof (induction tbl chr p1 i rule: site_loop.induct)
  case (1 tbl chr p1 i)
  from site_loop_stay[of tbl chr p1 i] show ?case
  proof
    assume "fst (site_loop tbl chr p1 i) = i"
    then show ?thesis by simp
  next
    assume a: "i < length tbl \<and> site_loop tbl chr p1 i = site_loop tbl chr p1 (i + 1) \<and>
      (fst (tbl ! i) < chr \<or> chr = fst (tbl ! i) \<and> snd (tbl ! i) < p1)"
    then have later: "site_loop tbl chr p2 i = site_loop tbl chr p2 (i + 1)"
      using "1.prems" by (intro site_loop_skip) auto
    have "site_loop tbl chr p2 (fst (site_loop tbl chr p1 (i + 1))) = site_loop tbl chr p2 (i + 1)"
      using a "1.IH" "1.prems" by auto
    with a later show ?thesis by simp
  qed
qed

text \<open>
  The cursor loops of the two \<^verbatim>\<open>readVcf\<close> functions. Two positions \<open>p1 < p2\<close> of one
  chromosome are looked up one after the other, the first from the cursor \<open>c0\<close>, the
  second from the cursor \<open>c1\<close> that the first lookup leaves. In each of the three loops
  (containment in the gene and the coordinate table, equality in the divergence table
  and in the site table) the cursor only moves forward, \<open>c0 \<le> c1 \<le> c2\<close>, and the second
  lookup ends on the same cursor with the same answer, found or not, as a scan for \<open>p2\<close>
  alone from \<open>c0\<close>; with \<open>c0 = 0\<close> that is the scan of the whole table from index 0. No
  order of the table is needed for this.
\<close>

lemma cursor_loops_forward_and_rescan:
  assumes "p1 < p2"
  shows "(let (c1, r1) = region_loop regions chr p1 c0;
              (c2, r2) = region_loop regions chr p2 c1
          in c0 \<le> c1 \<and> c1 \<le> c2 \<and> region_loop regions chr p2 c0 = (c2, r2)) \<and>
         (let (c1, r1) = div_loop dv chr p1 c0;
              (c2, r2) = div_loop dv chr p2 c1
          in c0 \<le> c1 \<and> c1 \<le> c2 \<and> div_loop dv chr p2 c0 = (c2, r2)) \<and>
         (let (c1, r1) = site_loop sites chr p1 c0;
              (c2, r2) = site_loop sites chr p2 c1
          in c0 \<le> c1 \<and> c1 \<le> c2 \<and> site_loop sites chr p2 c0 = (c2, r2))"
proof -
  have a: "c0 \<le> fst (region_loop regions chr p1 c0)"
    "fst (region_loop regions chr p1 c0)
       \<le> fst (region_loop regions chr p2 (fst (region_loop regions chr p1 c0)))"
    by (rule region_loop_forward)+
  have b: "c0 \<le> fst (div_loop dv chr p1 c0)"
    "fst (div_loop dv chr p1 c0) \<le> fst (div_loop dv chr p2 (fst (div_loop dv chr p1 c0)))"
    by (rule div_loop_forward)+
  have c: "c0 \<le> fst (site_loop sites chr p1 c0)"
    "fst (site_loop sites chr p1 c0)
       \<le> fst (site_loop sites chr p2 (fst (site_loop sites chr p1 c0)))"
    by (rule site_loop_forward)+
  show ?thesis
    using a b c region_loop_resume[OF assms, of regions chr c0]
      div_loop_resume[OF assms, of dv chr c0] site_loop_resume[OF assms, of sites chr c0]
    by (simp add: case_prod_beta)
qed

lemma cursor_loops_forward_and_rescan_example:
  "(15::int) < 35 \<and>
   region_loop ex_genes 1 15 0 = (0, True) \<and> region_loop ex_genes 1 35 0 = (1, True) \<and>
   div_loop ex_div 1 15 0 = (0, True) \<and> div_loop ex_div 1 35 0 = (1, True) \<and>
   site_loop ex_sites 1 15 0 = (1, True) \<and> site_loop ex_sites 1 35 1 = (2, True) \<and>
   site_loop ex_sites 1 35 0 = (2, True)"
  using cursor_loops_forward_and_rescan[of 15 35 ex_genes 1 0 ex_div ex_sites]
  by (simp add: region_loop.simps div_loop.simps site_loop.simps ex_genes_def ex_div_def ex_sites_def)

text \<open>The lookups of the two \<^verbatim>\<open>readVcf\<close> functions run these loops from the cursors of
  the state and store the cursors the loops return: no cursor of the state moves
  backward.\<close>

lemma locate_forward:
  "gene_i st \<le> gene_i (locate genes coords dv st)"
  "coord_i st \<le> coord_i (locate genes coords dv st)"
  "div_i st \<le> div_i (locate genes coords dv st)"
  using region_loop_forward[of "gene_i st" genes "v_chr st" "v_pos st"]
    region_loop_forward[of "coord_i st" coords "v_chr st" "v_pos st"]
    div_loop_forward[of "div_i st" dv "v_chr st" "v_pos st"]
  by (auto simp add: locate_def gene_change_def split: prod.splits option.splits)

lemma sfs_locate_forward:
  "m_site_i st \<le> m_site_i (sfs_locate sites dv st)"
  "m_div_i st \<le> m_div_i (sfs_locate sites dv st)"
  using site_loop_forward[of "m_site_i st" sites "m_chr st" "m_pos st"]
    div_loop_forward[of "m_div_i st" dv "m_chr st" "m_pos st"]
  by (auto simp add: sfs_locate_def split: prod.splits)

section \<open>The cursor loops on sorted tables\<close>

text \<open>
  On a table in the order of chromosome and start (for sites: position), a lookup from
  index 0 finds a record exactly when some record of the whole table contains (for
  sites: is at) the queried position: what the loops step over lies before the query,
  and where they stop without a match everything further on lies after it.
\<close>

lemma region_loop_found_from:
  "sorted_wrt region_before tbl \<Longrightarrow>
   snd (region_loop tbl chr p i) =
     (\<exists>j. i \<le> j \<and> j < length tbl \<and> r_chr (tbl ! j) = chr \<and>
          r_start (tbl ! j) \<le> p \<and> p \<le> r_stop (tbl ! j))"
proof (induction tbl chr p i rule: region_loop.induct)
  case (1 tbl chr p i)
  define hit where "hit j = (r_chr (tbl ! j) = chr \<and> r_start (tbl ! j) \<le> p \<and> p \<le> r_stop (tbl ! j))" for j
  have later: "region_before (tbl ! i) (tbl ! j)" if "i < j" "j < length tbl" for j
    using "1.prems" that by (simp add: sorted_wrt_iff_nth_less)
  have goal: "snd (region_loop tbl chr p i) = (\<exists>j. i \<le> j \<and> j < length tbl \<and> hit j)"
  proof (cases "i < length tbl")
    case False
    then have "region_loop tbl chr p i = (i, False)" by (subst region_loop.simps) simp
    with False show ?thesis by auto
  next
    case inb: True
    have c: "hit i \<or>
        (chr < r_chr (tbl ! i) \<or> chr = r_chr (tbl ! i) \<and> p < r_start (tbl ! i)) \<or>
        (r_chr (tbl ! i) < chr \<or> chr = r_chr (tbl ! i) \<and> r_stop (tbl ! i) < p \<and> r_start (tbl ! i) \<le> p)"
      unfolding hit_def by linarith
    then consider (hit) "hit i"
      | (stop) "chr < r_chr (tbl ! i) \<or> chr = r_chr (tbl ! i) \<and> p < r_start (tbl ! i)"
      | (skip) "r_chr (tbl ! i) < chr \<or> chr = r_chr (tbl ! i) \<and> r_stop (tbl ! i) < p \<and> r_start (tbl ! i) \<le> p"
      by blast
    then show ?thesis
    proof cases
      case hit
      then have "region_loop tbl chr p i = (i, True)"
        using inb unfolding hit_def by (subst region_loop.simps) simp
      moreover have "\<exists>j. i \<le> j \<and> j < length tbl \<and> hit j" using hit inb by blast
      ultimately show ?thesis by simp
    next
      case stop
      then have l: "region_loop tbl chr p i = (i, False)"
        using inb by (subst region_loop.simps) auto
      have "\<not> hit j" if j: "i \<le> j" "j < length tbl" for j
      proof (cases "j = i")
        case True
        from stop show ?thesis unfolding hit_def True by linarith
      next
        case False
        with j have "i < j" by simp
        then have "region_before (tbl ! i) (tbl ! j)" using j(2) by (rule later)
        with stop show ?thesis unfolding hit_def region_before_def by linarith
      qed
      then have "\<not> (\<exists>j. i \<le> j \<and> j < length tbl \<and> hit j)" by blast
      with l show ?thesis by simp
    next
      case skip
      then have l: "region_loop tbl chr p i = region_loop tbl chr p (i + 1)"
        by (rule region_loop_skip[OF inb])
      have n: "chr = r_chr (tbl ! i) \<longrightarrow> \<not> (p \<le> r_stop (tbl ! i) \<and> p \<ge> r_start (tbl ! i)) \<and> \<not> p < r_start (tbl ! i)"
        "chr \<noteq> r_chr (tbl ! i) \<longrightarrow> \<not> chr < r_chr (tbl ! i)"
        using skip by linarith+
      have ih: "snd (region_loop tbl chr p (i + 1)) =
          (\<exists>j. i + 1 \<le> j \<and> j < length tbl \<and> hit j)"
      proof (cases "chr = r_chr (tbl ! i)")
        case True
        with n(1) show ?thesis using "1.IH"(1)[OF inb True _ _ "1.prems"] unfolding hit_def by blast
      next
        case False
        with n(2) show ?thesis using "1.IH"(2)[OF inb False _ "1.prems"] unfolding hit_def by blast
      qed
      from skip have nh: "\<not> hit i" unfolding hit_def by linarith
      have "(i \<le> j \<and> j < length tbl \<and> hit j) = (i + 1 \<le> j \<and> j < length tbl \<and> hit j)" for j
        using nh by (cases "j = i") auto
      then have "(\<exists>j. i \<le> j \<and> j < length tbl \<and> hit j) = (\<exists>j. i + 1 \<le> j \<and> j < length tbl \<and> hit j)"
        by (rule arg_cong[where f = Ex, OF ext])
      with l ih show ?thesis by simp
    qed
  qed
  then show ?case unfolding hit_def .
qed

lemma region_loop_found_iff:
  assumes "sorted_wrt region_before tbl"
  shows "snd (region_loop tbl chr p 0) =
     (\<exists>r \<in> set tbl. r_chr r = chr \<and> r_start r \<le> p \<and> p \<le> r_stop r)"
proof -
  have "(\<exists>r \<in> set tbl. r_chr r = chr \<and> r_start r \<le> p \<and> p \<le> r_stop r) =
        (\<exists>j. j < length tbl \<and> r_chr (tbl ! j) = chr \<and> r_start (tbl ! j) \<le> p \<and> p \<le> r_stop (tbl ! j))"
  proof
    assume "\<exists>r \<in> set tbl. r_chr r = chr \<and> r_start r \<le> p \<and> p \<le> r_stop r"
    then obtain r where r: "r \<in> set tbl" "r_chr r = chr \<and> r_start r \<le> p \<and> p \<le> r_stop r" by blast
    from r(1) obtain j where "j < length tbl" "tbl ! j = r" unfolding in_set_conv_nth by blast
    with r(2) show "\<exists>j. j < length tbl \<and> r_chr (tbl ! j) = chr \<and> r_start (tbl ! j) \<le> p \<and> p \<le> r_stop (tbl ! j)"
      by blast
  next
    assume "\<exists>j. j < length tbl \<and> r_chr (tbl ! j) = chr \<and> r_start (tbl ! j) \<le> p \<and> p \<le> r_stop (tbl ! j)"
    then obtain j where j: "j < length tbl" "r_chr (tbl ! j) = chr \<and> r_start (tbl ! j) \<le> p \<and> p \<le> r_stop (tbl ! j)"
      by blast
    from j(1) have "tbl ! j \<in> set tbl" by simp
    with j(2) show "\<exists>r \<in> set tbl. r_chr r = chr \<and> r_start r \<le> p \<and> p \<le> r_stop r" by blast
  qed
  then show ?thesis using region_loop_found_from[OF assms, of chr p 0] by simp
qed

lemma div_loop_found_from:
  "sorted_wrt site_before tbl \<Longrightarrow>
   snd (div_loop tbl chr p i) =
     (\<exists>j. i \<le> j \<and> j < length tbl \<and> s_chr (tbl ! j) = chr \<and> s_pos (tbl ! j) = p)"
proof (induction tbl chr p i rule: div_loop.induct)
  case (1 tbl chr p i)
  define hit where "hit j = (s_chr (tbl ! j) = chr \<and> s_pos (tbl ! j) = p)" for j
  have later: "site_before (tbl ! i) (tbl ! j)" if "i < j" "j < length tbl" for j
    using "1.prems" that by (simp add: sorted_wrt_iff_nth_less)
  have goal: "snd (div_loop tbl chr p i) = (\<exists>j. i \<le> j \<and> j < length tbl \<and> hit j)"
  proof (cases "i < length tbl")
    case False
    then have "div_loop tbl chr p i = (i, False)" by (subst div_loop.simps) simp
    with False show ?thesis by auto
  next
    case inb: True
    have c: "hit i \<or>
        (chr < s_chr (tbl ! i) \<or> chr = s_chr (tbl ! i) \<and> p < s_pos (tbl ! i)) \<or>
        (s_chr (tbl ! i) < chr \<or> chr = s_chr (tbl ! i) \<and> s_pos (tbl ! i) < p)"
      unfolding hit_def by linarith
    then consider (hit) "hit i"
      | (stop) "chr < s_chr (tbl ! i) \<or> chr = s_chr (tbl ! i) \<and> p < s_pos (tbl ! i)"
      | (skip) "s_chr (tbl ! i) < chr \<or> chr = s_chr (tbl ! i) \<and> s_pos (tbl ! i) < p"
      by blast
    then show ?thesis
    proof cases
      case hit
      then have "div_loop tbl chr p i = (i, True)"
        using inb unfolding hit_def by (subst div_loop.simps) simp
      moreover have "\<exists>j. i \<le> j \<and> j < length tbl \<and> hit j" using hit inb by blast
      ultimately show ?thesis by simp
    next
      case stop
      then have l: "div_loop tbl chr p i = (i, False)"
        using inb by (subst div_loop.simps) auto
      have "\<not> hit j" if j: "i \<le> j" "j < length tbl" for j
      proof (cases "j = i")
        case True
        from stop show ?thesis unfolding hit_def True by linarith
      next
        case False
        with j have "i < j" by simp
        then have "site_before (tbl ! i) (tbl ! j)" using j(2) by (rule later)
        with stop show ?thesis unfolding hit_def site_before_def by linarith
      qed
      then have "\<not> (\<exists>j. i \<le> j \<and> j < length tbl \<and> hit j)" by blast
      with l show ?thesis by simp
    next
      case skip
      then have l: "div_loop tbl chr p i = div_loop tbl chr p (i + 1)"
        by (rule div_loop_skip[OF inb])
      have n: "chr = s_chr (tbl ! i) \<longrightarrow> p \<noteq> s_pos (tbl ! i) \<and> \<not> p < s_pos (tbl ! i)"
        "chr \<noteq> s_chr (tbl ! i) \<longrightarrow> \<not> chr < s_chr (tbl ! i)"
        using skip by linarith+
      have ih: "snd (div_loop tbl chr p (i + 1)) =
          (\<exists>j. i + 1 \<le> j \<and> j < length tbl \<and> hit j)"
      proof (cases "chr = s_chr (tbl ! i)")
        case True
        with n(1) show ?thesis using "1.IH"(1)[OF inb True _ _ "1.prems"] unfolding hit_def by blast
      next
        case False
        with n(2) show ?thesis using "1.IH"(2)[OF inb False _ "1.prems"] unfolding hit_def by blast
      qed
      from skip have nh: "\<not> hit i" unfolding hit_def by linarith
      have "(i \<le> j \<and> j < length tbl \<and> hit j) = (i + 1 \<le> j \<and> j < length tbl \<and> hit j)" for j
        using nh by (cases "j = i") auto
      then have "(\<exists>j. i \<le> j \<and> j < length tbl \<and> hit j) = (\<exists>j. i + 1 \<le> j \<and> j < length tbl \<and> hit j)"
        by (rule arg_cong[where f = Ex, OF ext])
      with l ih show ?thesis by simp
    qed
  qed
  then show ?case unfolding hit_def .
qed

lemma div_loop_found_iff:
  assumes "sorted_wrt site_before tbl"
  shows "snd (div_loop tbl chr p 0) = (\<exists>r \<in> set tbl. s_chr r = chr \<and> s_pos r = p)"
proof -
  have "(\<exists>r \<in> set tbl. s_chr r = chr \<and> s_pos r = p) =
        (\<exists>j. j < length tbl \<and> s_chr (tbl ! j) = chr \<and> s_pos (tbl ! j) = p)"
  proof
    assume "\<exists>r \<in> set tbl. s_chr r = chr \<and> s_pos r = p"
    then obtain r where r: "r \<in> set tbl" "s_chr r = chr \<and> s_pos r = p" by blast
    from r(1) obtain j where "j < length tbl" "tbl ! j = r" unfolding in_set_conv_nth by blast
    with r(2) show "\<exists>j. j < length tbl \<and> s_chr (tbl ! j) = chr \<and> s_pos (tbl ! j) = p"
      by blast
  next
    assume "\<exists>j. j < length tbl \<and> s_chr (tbl ! j) = chr \<and> s_pos (tbl ! j) = p"
    then obtain j where j: "j < length tbl" "s_chr (tbl ! j) = chr \<and> s_pos (tbl ! j) = p"
      by blast
    from j(1) have "tbl ! j \<in> set tbl" by simp
    with j(2) show "\<exists>r \<in> set tbl. s_chr r = chr \<and> s_pos r = p" by blast
  qed
  then show ?thesis using div_loop_found_from[OF assms, of chr p 0] by simp
qed

lemma site_loop_found_from:
  "sorted_wrt pair_before tbl \<Longrightarrow>
   snd (site_loop tbl chr p i) =
     (\<exists>j. i \<le> j \<and> j < length tbl \<and> fst (tbl ! j) = chr \<and> snd (tbl ! j) = p)"
proof (induction tbl chr p i rule: site_loop.induct)
  case (1 tbl chr p i)
  define hit where "hit j = (fst (tbl ! j) = chr \<and> snd (tbl ! j) = p)" for j
  have later: "pair_before (tbl ! i) (tbl ! j)" if "i < j" "j < length tbl" for j
    using "1.prems" that by (simp add: sorted_wrt_iff_nth_less)
  have goal: "snd (site_loop tbl chr p i) = (\<exists>j. i \<le> j \<and> j < length tbl \<and> hit j)"
  proof (cases "i < length tbl")
    case False
    then have "site_loop tbl chr p i = (i, False)" by (subst site_loop.simps) simp
    with False show ?thesis by auto
  next
    case inb: True
    have c: "hit i \<or>
        (chr < fst (tbl ! i) \<or> chr = fst (tbl ! i) \<and> p < snd (tbl ! i)) \<or>
        (fst (tbl ! i) < chr \<or> chr = fst (tbl ! i) \<and> snd (tbl ! i) < p)"
      unfolding hit_def by linarith
    then consider (hit) "hit i"
      | (stop) "chr < fst (tbl ! i) \<or> chr = fst (tbl ! i) \<and> p < snd (tbl ! i)"
      | (skip) "fst (tbl ! i) < chr \<or> chr = fst (tbl ! i) \<and> snd (tbl ! i) < p"
      by blast
    then show ?thesis
    proof cases
      case hit
      then have "site_loop tbl chr p i = (i, True)"
        using inb unfolding hit_def by (subst site_loop.simps) simp
      moreover have "\<exists>j. i \<le> j \<and> j < length tbl \<and> hit j" using hit inb by blast
      ultimately show ?thesis by simp
    next
      case stop
      then have l: "site_loop tbl chr p i = (i, False)"
        using inb by (subst site_loop.simps) auto
      have "\<not> hit j" if j: "i \<le> j" "j < length tbl" for j
      proof (cases "j = i")
        case True
        from stop show ?thesis unfolding hit_def True by linarith
      next
        case False
        with j have "i < j" by simp
        then have "pair_before (tbl ! i) (tbl ! j)" using j(2) by (rule later)
        with stop show ?thesis unfolding hit_def pair_before_def by linarith
      qed
      then have "\<not> (\<exists>j. i \<le> j \<and> j < length tbl \<and> hit j)" by blast
      with l show ?thesis by simp
    next
      case skip
      then have l: "site_loop tbl chr p i = site_loop tbl chr p (i + 1)"
        by (rule site_loop_skip[OF inb])
      have n: "chr = fst (tbl ! i) \<longrightarrow> p \<noteq> snd (tbl ! i) \<and> \<not> p < snd (tbl ! i)"
        "chr \<noteq> fst (tbl ! i) \<longrightarrow> \<not> chr < fst (tbl ! i)"
        using skip by linarith+
      have ih: "snd (site_loop tbl chr p (i + 1)) =
          (\<exists>j. i + 1 \<le> j \<and> j < length tbl \<and> hit j)"
      proof (cases "chr = fst (tbl ! i)")
        case True
        with n(1) show ?thesis using "1.IH"(1)[OF inb True _ _ "1.prems"] unfolding hit_def by blast
      next
        case False
        with n(2) show ?thesis using "1.IH"(2)[OF inb False _ "1.prems"] unfolding hit_def by blast
      qed
      from skip have nh: "\<not> hit i" unfolding hit_def by linarith
      have "(i \<le> j \<and> j < length tbl \<and> hit j) = (i + 1 \<le> j \<and> j < length tbl \<and> hit j)" for j
        using nh by (cases "j = i") auto
      then have "(\<exists>j. i \<le> j \<and> j < length tbl \<and> hit j) = (\<exists>j. i + 1 \<le> j \<and> j < length tbl \<and> hit j)"
        by (rule arg_cong[where f = Ex, OF ext])
      with l ih show ?thesis by simp
    qed
  qed
  then show ?case unfolding hit_def .
qed

lemma site_loop_found_iff:
  assumes "sorted_wrt pair_before tbl"
  shows "snd (site_loop tbl chr p 0) = (\<exists>r \<in> set tbl. fst r = chr \<and> snd r = p)"
proof -
  have "(\<exists>r \<in> set tbl. fst r = chr \<and> snd r = p) =
        (\<exists>j. j < length tbl \<and> fst (tbl ! j) = chr \<and> snd (tbl ! j) = p)"
  proof
    assume "\<exists>r \<in> set tbl. fst r = chr \<and> snd r = p"
    then obtain r where r: "r \<in> set tbl" "fst r = chr \<and> snd r = p" by blast
    from r(1) obtain j where "j < length tbl" "tbl ! j = r" unfolding in_set_conv_nth by blast
    with r(2) show "\<exists>j. j < length tbl \<and> fst (tbl ! j) = chr \<and> snd (tbl ! j) = p"
      by blast
  next
    assume "\<exists>j. j < length tbl \<and> fst (tbl ! j) = chr \<and> snd (tbl ! j) = p"
    then obtain j where j: "j < length tbl" "fst (tbl ! j) = chr \<and> snd (tbl ! j) = p"
      by blast
    from j(1) have "tbl ! j \<in> set tbl" by simp
    with j(2) show "\<exists>r \<in> set tbl. fst r = chr \<and> snd r = p" by blast
  qed
  then show ?thesis using site_loop_found_from[OF assms, of chr p 0] by simp
qed

section \<open>The coordinate loop of readSites\<close>

text \<open>Without a target table the loop over the coordinates in \<^verbatim>\<open>readSites\<close> is the
  containment loop.\<close>

lemma sites_loop_no_target:
  "sites_loop coords [] chr pos i t =
     (fst (region_loop coords chr pos i), t, snd (region_loop coords chr pos i))"
proof (induction coords chr pos i rule: region_loop.induct)
  case (1 tbl chr pos i)
  have s: "sites_loop tbl [] chr pos i t =
     (if i < length tbl then
        (if chr = r_chr (tbl ! i) then
           (if pos \<ge> r_start (tbl ! i) \<and> pos \<le> r_stop (tbl ! i) then (i, t, True)
            else if pos < r_start (tbl ! i) then (i, t, False)
            else sites_loop tbl [] chr pos (i + 1) t)
         else if chr < r_chr (tbl ! i) then (i, t, False)
         else sites_loop tbl [] chr pos (i + 1) t)
      else (i, t, False))"
    by (subst sites_loop.simps) simp
  have r: "region_loop tbl chr pos i =
     (if i < length tbl then
        (if chr = r_chr (tbl ! i) then
           (if pos \<le> r_stop (tbl ! i) \<and> pos \<ge> r_start (tbl ! i) then (i, True)
            else if pos < r_start (tbl ! i) then (i, False)
            else region_loop tbl chr pos (i + 1))
         else if chr < r_chr (tbl ! i) then (i, False)
         else region_loop tbl chr pos (i + 1))
      else (i, False))"
    by (rule region_loop.simps)
  show ?case
    unfolding s r using "1.IH" by (simp split: if_splits)
qed

text \<open>
  Claim C1, at a failing input. The coordinate table holds the blocks 1 to 1000 and
  2000 to 3000 of chromosome 1 and the target table the region 100 to 200 of
  chromosome 1; both are sorted. \<^verbatim>\<open>readSites\<close> of makeDFE-alpha.c looks up the sites 50
  and 150 of chromosome 1, in this order. The lookup of 50 finds the first block, does
  not find a target region, and, since only a target region found leaves the loop over
  the coordinates, goes on to \<^verbatim>\<open>coord_i++\<close>: it ends with the cursor on the second
  block. The lookup of 150 from this cursor finds no block, while the lookup of 150
  from index 0 finds the first block and the target region, as the scans of the two
  tables from index 0 do. So the site file with the two sites gives no site, and the
  file with the second site alone gives that site.
\<close>

theorem readSites_leaves_containing_block:
  "sorted_wrt region_before ex_blocks \<and> sorted_wrt region_before ex_target \<and>
   sites_loop ex_blocks ex_target 1 50 0 0 = (1, 0, False) \<and>
   sites_loop ex_blocks ex_target 1 150 1 0 = (1, 0, False) \<and>
   sites_loop ex_blocks ex_target 1 150 0 0 = (0, 0, True) \<and>
   region_loop ex_blocks 1 150 0 = (0, True) \<and>
   region_loop ex_target 1 150 0 = (0, True) \<and>
   readSites ex_blocks ex_target ex_site_file = Inr [] \<and>
   readSites ex_blocks ex_target (tabs [''1'', ''150'']) = Inr [(1, 150)]"
  by code_simp

section \<open>Properties of the classification\<close>

lemma daf_class_5: "daf_class 5 r ref alt = (daf_class 3 r ref alt \<or> daf_class 4 r ref alt)"
  unfolding daf_class_def by simp blast

lemma sfs_class_5: "sfs_class 5 r ref alt = (sfs_class 3 r ref alt \<or> sfs_class 4 r ref alt)"
  unfolding sfs_class_def by simp blast

lemma daf_body_5:
  "fst (projr (daf_body behind genes coords dv 5 5 st temp)) =
     (fst (projr (daf_body behind genes coords dv 3 5 st temp)) \<or>
      fst (projr (daf_body behind genes coords dv 4 5 st temp)))"
  by (simp add: daf_body_def Let_def daf_class_5)

lemma sfs_body_5:
  "fst (projr (sfs_body behind sites dv 5 5 st temp)) =
     (fst (projr (sfs_body behind sites dv 3 5 st temp)) \<or>
      fst (projr (sfs_body behind sites dv 4 5 st temp)))"
  by (simp add: sfs_body_def Let_def sfs_class_5)

text \<open>
  Claim C4. The classification of each program is a function of the mode, of whether a
  divergence record was found, and of the two alleles: it gives one answer for every
  pair of characters, so for every pair over A, T, G, C. Under the mode SS+WW (5) a pair
  is eligible exactly when it is eligible under SS (3) or under WW (4), and the same
  holds for the decision of the loop body on the alternate allele (column 5) of a line,
  which is what keeps or drops the line.
\<close>

theorem ss_ww_iff_ss_or_ww:
  "daf_class 5 r ref alt = (daf_class 3 r ref alt \<or> daf_class 4 r ref alt) \<and>
   sfs_class 5 r ref alt = (sfs_class 3 r ref alt \<or> sfs_class 4 r ref alt) \<and>
   fst (projr (daf_body behind genes coords dv 5 5 st temp)) =
     (fst (projr (daf_body behind genes coords dv 3 5 st temp)) \<or>
      fst (projr (daf_body behind genes coords dv 4 5 st temp))) \<and>
   fst (projr (sfs_body behind sites dv 5 5 st' temp)) =
     (fst (projr (sfs_body behind sites dv 3 5 st' temp)) \<or>
      fst (projr (sfs_body behind sites dv 4 5 st' temp)))"
  using daf_class_5 sfs_class_5 daf_body_5 sfs_body_5 by blast

section \<open>The end of the stream in estDAF.c\<close>

text \<open>
  Claim C2, at a failing input. Two variant lines fall in the gene \<open>g1\<close> and the stream
  ends. The loop over the lines ends with the counts of \<open>g1\<close> in the state (3 derived
  calls out of 5, 2 sites) and with nothing but the header on the standard output: no
  row is printed for the last gene, since rows are printed only where a line of another
  gene arrives.
\<close>

theorem last_gene_row_missing:
  "readVcf_estDAF (CHR 0x00) ex_genes ex_coords ex_div 0
     [ex_header, ex_line ''12'' ''A'' ''G'' [''1/1'', ''0/0'', ''./.''],
      ex_line ''15'' ''G'' ''A'' [''0/0'', ''1/1'', ''0/0'']] =
   Inr \<lparr>gene_i = 0, coord_i = 0, div_i = 0, ok = True, rd = True, da_i = 3, a_i = 5,
        s_i = 2, gene = Some ''g1'', v_chr = 1, v_pos = 15, v_ref = CHR ''G'',
        v_alt = CHR ''A'', out = [Header], err = []\<rparr>"
  by code_simp

section \<open>Polarity\<close>










section \<open>Imputation of missing calls in makeDFE-alpha.c\<close>





section \<open>The mode 0\<close>

text \<open>
  Claim C10 as stated fails in estDAF.c: with the mode 0, the line at position 15 with
  the alleles G and T lies in a gene and in a coordinate block and has a divergence
  record (G/A), so \<open>ok\<close> is set, but it is dropped at its alternate allele and counts for
  nothing; the same line with the alternate allele A is counted.
\<close>

theorem mode_zero_counterexample:
  "readVcf_estDAF (CHR 0x00) ex_genes ex_coords ex_div 0
     [ex_header, ex_line ''15'' ''G'' ''T'' [''0/0'', ''1/1'', ''0/0'']] =
   Inr \<lparr>gene_i = 0, coord_i = 0, div_i = 0, ok = True, rd = True, da_i = 0, a_i = 0,
        s_i = 0, gene = Some ''g1'', v_chr = 1, v_pos = 15, v_ref = CHR ''G'',
        v_alt = CHR ''T'', out = [Header], err = []\<rparr> \<and>
   readVcf_estDAF (CHR 0x00) ex_genes ex_coords ex_div 0
     [ex_header, ex_line ''15'' ''G'' ''A'' [''0/0'', ''1/1'', ''0/0'']] =
   Inr \<lparr>gene_i = 0, coord_i = 0, div_i = 0, ok = True, rd = True, da_i = 2, a_i = 3,
        s_i = 1, gene = Some ''g1'', v_chr = 1, v_pos = 15, v_ref = CHR ''G'',
        v_alt = CHR ''A'', out = [Header], err = []\<rparr>"
  by code_simp

lemma daf_body_mode_zero:
  "daf_body behind genes coords dv 0 5 st temp =
     Inr (\<not> (rd st \<and> char0 temp \<noteq> s_alt (dv ! div_i st)), st\<lparr>v_alt := char0 temp\<rparr>)"
  by (simp add: daf_body_def Let_def)

lemma sfs_body_mode_zero:
  "sfs_body behind sites dv 0 5 st temp = Inr (True, st\<lparr>m_alt := char0 temp\<rparr>)"
  by (simp add: sfs_body_def Let_def)

lemma daf_body_ref:
  "fst (projr (daf_body behind genes coords dv gc 4 st temp)) =
     (\<not> (rd st \<and> char0 temp \<noteq> s_ref (dv ! div_i st)))"
  by (simp add: daf_body_def Let_def)

lemma sfs_body_ref:
  "fst (projr (sfs_body behind sites dv gc 4 st temp)) =
     (\<not> (m_rd st \<and> char0 temp \<noteq> s_ref (dv ! m_div_i st)))"
  by (simp add: sfs_body_def Let_def)

text \<open>
  Claim C10 as amended. With the mode 0 the classification is not run. A line for
  which the lookup set \<open>ok\<close> goes on past its alternate allele (column 5) in
  makeDFE-alpha.c whatever the alleles are, and in estDAF.c unless a divergence record
  was found and its alternate allele differs from that of the line. In both programs,
  under every mode, the line goes on past its reference allele (column 4) unless a
  divergence record was found and its reference allele differs from that of the line.
  So a line without a divergence record is kept whatever its alleles are.
\<close>

theorem mode_zero_bypasses_classification:
  "daf_body behind genes coords dv 0 5 st temp =
     Inr (\<not> (rd st \<and> char0 temp \<noteq> s_alt (dv ! div_i st)), st\<lparr>v_alt := char0 temp\<rparr>) \<and>
   sfs_body behind sites dv 0 5 mst temp = Inr (True, mst\<lparr>m_alt := char0 temp\<rparr>) \<and>
   fst (projr (daf_body behind genes coords dv gc 4 st temp)) =
     (\<not> (rd st \<and> char0 temp \<noteq> s_ref (dv ! div_i st))) \<and>
   fst (projr (sfs_body behind sites dv gc 4 mst temp)) =
     (\<not> (m_rd mst \<and> char0 temp \<noteq> s_ref (dv ! m_div_i mst)))"
  by (simp add: daf_body_mode_zero sfs_body_mode_zero daf_body_ref sfs_body_ref)

section \<open>The loaders\<close>
















section \<open>A reference allele that differs from the divergence record\<close>
















section \<open>The ratio of a gene without callable calls\<close>

lemma fdiv_ok: "x \<le> y \<Longrightarrow> ratio_ok (fdiv x y)"
  by (simp add: fdiv_def ratio_ok_def)

lemma gene_change_inv: "daf_inv st \<Longrightarrow> daf_inv (gene_change genes st)"
  by (auto simp add: daf_inv_def gene_change_def fdiv_ok split: option.splits)

lemma locate_inv: "daf_inv st \<Longrightarrow> daf_inv (locate genes coords dv st)"
proof -
  assume a: "daf_inv st"
  have u: "\<And>g c. daf_inv (st\<lparr>gene_i := g, coord_i := c\<rparr>)" "\<And>g. daf_inv (st\<lparr>gene_i := g\<rparr>)"
    using a by (simp_all add: daf_inv_def)
  have v: "\<And>s d r. daf_inv s \<Longrightarrow> daf_inv (s\<lparr>div_i := d, rd := r, ok := True\<rparr>)"
    by (simp add: daf_inv_def)
  show ?thesis
    using u v gene_change_inv by (simp add: locate_def split: prod.splits)
qed

lemma hom_called: "hom behind c temp \<Longrightarrow> c \<noteq> CHR ''.'' \<Longrightarrow> called behind temp"
  by (auto simp add: hom_def called_def)

lemma daf_sample_inv: "daf_inv st \<Longrightarrow> daf_inv (daf_sample behind st temp)"
proof -
  assume i: "daf_inv st"
  have 0: "hom behind (CHR ''0'') temp \<Longrightarrow> called behind temp"
    by (erule hom_called) simp
  have 1: "hom behind (CHR ''1'') temp \<Longrightarrow> called behind temp"
    by (erule hom_called) simp
  show ?thesis
    using i 0 1 by (auto simp add: daf_sample_def daf_inv_def)
qed

lemma daf_body_inv:
  "daf_body behind genes coords dv gc i st temp = Inr (b, st') \<Longrightarrow> daf_inv st \<Longrightarrow> daf_inv st'"
proof -
  assume b: "daf_body behind genes coords dv gc i st temp = Inr (b, st')" and inv: "daf_inv st"
  have u: "\<And>p. daf_inv (st\<lparr>v_pos := p, ok := False, rd := False\<rparr>)"
    "\<And>r. daf_inv (st\<lparr>v_ref := r\<rparr>)" "\<And>r e. daf_inv (st\<lparr>v_ref := r, err := e\<rparr>)"
    "\<And>r. daf_inv (st\<lparr>v_alt := r\<rparr>)" "\<And>r e. daf_inv (st\<lparr>v_alt := r, ok := e\<rparr>)"
    using inv by (simp_all add: daf_inv_def)
  show ?thesis
    using b u locate_inv[OF u(1)] daf_sample_inv[OF inv] inv
    by (auto simp add: daf_body_def Let_def split: if_splits)
qed

lemma daf_tokens_inv:
  "daf_tokens behind genes coords dv gc i st toks = Inr st' \<Longrightarrow> daf_inv st \<Longrightarrow> daf_inv st'"
proof (induction toks arbitrary: i st)
  case Nil
  then show ?case by simp
next
  case (Cons temp rest)
  from Cons.prems(1) obtain b st1 where b: "daf_body behind genes coords dv gc i st temp = Inr (b, st1)"
    by (auto split: sum.splits)
  then have i1: "daf_inv st1" using Cons.prems(2) by (rule daf_body_inv)
  then have i2: "daf_inv (st1\<lparr>s_i := s_i st1 + 1\<rparr>)" by (simp add: daf_inv_def)
  show ?case
  proof (cases "b \<and> rest \<noteq> []")
    case True
    with b Cons.prems(1) have "daf_tokens behind genes coords dv gc (i + 1) st1 rest = Inr st'" by simp
    then show ?thesis using i1 by (rule Cons.IH)
  next
    case False
    with b Cons.prems(1) have "st' = st1 \<or> st' = st1\<lparr>s_i := s_i st1 + 1\<rparr>"
      by (auto split: if_splits)
    with i1 i2 show ?thesis by auto
  qed
qed

lemma daf_line_inv: "daf_line behind genes coords dv gc st line = Inr st' \<Longrightarrow> daf_inv st \<Longrightarrow> daf_inv st'"
proof -
  assume l: "daf_line behind genes coords dv gc st line = Inr st'" and i: "daf_inv st"
  have u: "\<And>c. daf_inv (st\<lparr>v_chr := c\<rparr>)" using i by (simp add: daf_inv_def)
  show ?thesis
    using l i daf_tokens_inv[OF _ u]
    by (auto simp add: daf_line_def simp del: daf_tokens.simps split: list.splits if_splits)
qed

lemma daf_lines_inv: "daf_lines behind genes coords dv gc st ls = Inr st' \<Longrightarrow> daf_inv st \<Longrightarrow> daf_inv st'"
proof (induction ls arbitrary: st)
  case Nil
  then show ?case by simp
next
  case (Cons l ls)
  from Cons.prems(1) obtain st1 where s: "daf_line behind genes coords dv gc st l = Inr st1"
    "daf_lines behind genes coords dv gc st1 ls = Inr st'"
    by (auto split: sum.splits)
  from s(1) Cons.prems(2) have "daf_inv st1" by (rule daf_line_inv)
  with s(2) show ?case by (rule Cons.IH)
qed

lemma daf_init_inv: "daf_inv daf_init"
  by (simp add: daf_inv_def daf_init_def)

text \<open>The loop over the lines of estDAF.c ends without error on every variant file
  whose lines all have a token: the only read that can fail is that of the first token
  of a line without one (an empty line).\<close>

lemma daf_tokens_returns: "\<exists>st'. daf_tokens behind genes coords dv gc i st toks = Inr st'"
proof (induction toks arbitrary: i st)
  case Nil
  show ?case by simp
next
  case (Cons t toks)
  obtain b st1 where b: "daf_body behind genes coords dv gc i st t = Inr (b, st1)"
    by (cases "daf_body behind genes coords dv gc i st t")
       (auto simp add: daf_body_def Let_def split: if_splits)
  show ?case using b Cons.IH[of "i + 1" st1] by auto
qed

lemma daf_line_returns:
  "(\<exists>st'. daf_line behind genes coords dv gc st l = Inr st') = (tokens l \<noteq> [])"
proof (cases "tokens l")
  case Nil
  then show ?thesis by (simp add: daf_line_def)
next
  case (Cons t ts)
  from daf_tokens_returns[of behind genes coords dv gc 1 "st\<lparr>v_chr := atoi t\<rparr>" "t # ts"]
  obtain st1 where "daf_tokens behind genes coords dv gc 1 (st\<lparr>v_chr := atoi t\<rparr>) (t # ts) = Inr st1"
    by blast
  with Cons show ?thesis by (simp add: daf_line_def del: daf_tokens.simps)
qed

lemma daf_lines_returns:
  "(\<exists>st'. daf_lines behind genes coords dv gc st ls = Inr st') = (\<forall>l \<in> set ls. tokens l \<noteq> [])"
proof (induction ls arbitrary: st)
  case Nil
  show ?case by simp
next
  case (Cons l ls)
  show ?case
  proof (cases "tokens l = []")
    case True
    with daf_line_returns[of behind genes coords dv gc st l]
    have "\<And>st'. daf_line behind genes coords dv gc st l \<noteq> Inr st'" by blast
    then show ?thesis using True by (auto split: sum.splits)
  next
    case False
    with daf_line_returns[of behind genes coords dv gc st l]
    obtain st1 where s: "daf_line behind genes coords dv gc st l = Inr st1" by blast
    show ?thesis using s False Cons.IH[of st1] by simp
  qed
qed

lemma readVcf_estDAF_returns:
  "(\<exists>st. readVcf_estDAF behind genes coords dv gc ls = Inr st) = (\<forall>l \<in> set ls. tokens l \<noteq> [])"
  unfolding readVcf_estDAF_def by (rule daf_lines_returns)

text \<open>
  Claim C5. \<open>st\<close> is the state of estDAF.c after any number of lines of the variant
  file, read without error, that is, lines that all have a token; a genotype column of
  any length is read as the program reads it, the third character being the byte two
  places behind the first one in the buffer of the line. The derived calls never exceed
  the callable calls, so a zero count of callable calls comes with a zero count of
  derived calls and the division gives a NaN, not an infinity: the row that the change
  to another gene (the record \<open>gi\<close>) prints for a current gene \<open>g\<close> without callable
  calls is the gene, a NaN and the count of sites. No row printed so far holds an
  infinity, and a row that holds a quotient holds one with a positive denominator. The
  division is a division of doubles and prints a row in every case; the run goes on.
\<close>

theorem zero_denominator_gives_nan:
  assumes "readVcf_estDAF behind genes coords dv gc ls = Inr st"
  shows "(a_i st = 0 \<longrightarrow> fdiv (da_i st) (a_i st) = NaN) \<and>
         (a_i st = 0 \<and> gene st = Some g \<and> g \<noteq> r_id (genes ! gi) \<longrightarrow>
            out (gene_change genes (st\<lparr>gene_i := gi, coord_i := ci\<rparr>)) =
              out st @ [Row g NaN (s_i st)]) \<and>
         (\<forall>g r n. Row g r n \<in> set (out st) \<longrightarrow>
            r \<noteq> PosInf \<and> (\<forall>x y. r = Quotient x y \<longrightarrow> 0 < y \<and> x \<le> y))"
proof -
  from assms have "daf_inv st"
    unfolding readVcf_estDAF_def using daf_init_inv by (rule daf_lines_inv)
  then have le: "da_i st \<le> a_i st" and rows: "\<And>g r n. Row g r n \<in> set (out st) \<Longrightarrow> ratio_ok r"
    by (auto simp add: daf_inv_def)
  from le have z: "a_i st = 0 \<Longrightarrow> fdiv (da_i st) (a_i st) = NaN" by (simp add: fdiv_def)
  have e: "a_i st = 0 \<and> gene st = Some g \<and> g \<noteq> r_id (genes ! gi) \<longrightarrow>
            out (gene_change genes (st\<lparr>gene_i := gi, coord_i := ci\<rparr>)) =
              out st @ [Row g NaN (s_i st)]"
    using le by (simp add: gene_change_def fdiv_def)
  have r: "\<And>g r n. Row g r n \<in> set (out st) \<Longrightarrow>
            r \<noteq> PosInf \<and> (\<forall>x y. r = Quotient x y \<longrightarrow> 0 < y \<and> x \<le> y)"
    using rows by (fastforce simp add: ratio_ok_def)
  show ?thesis using z e r by blast
qed

theorem zero_denominator_gives_nan_witness:
  "readVcf_estDAF (CHR 0x00) ex_genes ex_coords ex_div 3
     [ex_header, ex_line ''12'' ''A'' ''G'' [''1/1'', ''0/0'', ''./.'']] = Inr ex_daf_empty_gene \<and>
   a_i ex_daf_empty_gene = 0 \<and> gene ex_daf_empty_gene = Some ''g1'' \<and>
   ''g1'' \<noteq> r_id (ex_genes ! 1) \<and>
   fdiv (da_i ex_daf_empty_gene) (a_i ex_daf_empty_gene) = NaN \<and>
   out (gene_change ex_genes (ex_daf_empty_gene\<lparr>gene_i := 1, coord_i := 0\<rparr>)) =
     out ex_daf_empty_gene @ [Row ''g1'' NaN (s_i ex_daf_empty_gene)] \<and>
   readVcf_estDAF (CHR 0x00) ex_genes ex_coords ex_div 3
     [ex_header, ex_line ''12'' ''A'' ''G'' [''1/1'', ''0/0'', ''./.''],
      ex_line ''35'' ''G'' ''C'' [''1/1'', ''0/0'', ''./.'']] =
   Inr \<lparr>gene_i = 1, coord_i = 0, div_i = 1, ok = True, rd = True, da_i = 0, a_i = 0, s_i = 0,
        gene = Some ''g2'', v_chr = 1, v_pos = 35, v_ref = CHR ''G'', v_alt = CHR ''G'',
        out = [Header, Row ''g1'' NaN 0], err = [(1, 35)]\<rparr>"
proof -
  have h: "readVcf_estDAF (CHR 0x00) ex_genes ex_coords ex_div 3
     [ex_header, ex_line ''12'' ''A'' ''G'' [''1/1'', ''0/0'', ''./.'']] = Inr ex_daf_empty_gene"
    "a_i ex_daf_empty_gene = 0" "gene ex_daf_empty_gene = Some ''g1''"
    "''g1'' \<noteq> r_id (ex_genes ! 1)"
    "readVcf_estDAF (CHR 0x00) ex_genes ex_coords ex_div 3
     [ex_header, ex_line ''12'' ''A'' ''G'' [''1/1'', ''0/0'', ''./.''],
      ex_line ''35'' ''G'' ''C'' [''1/1'', ''0/0'', ''./.'']] =
   Inr \<lparr>gene_i = 1, coord_i = 0, div_i = 1, ok = True, rd = True, da_i = 0, a_i = 0, s_i = 0,
        gene = Some ''g2'', v_chr = 1, v_pos = 35, v_ref = CHR ''G'', v_alt = CHR ''G'',
        out = [Header, Row ''g1'' NaN 0], err = [(1, 35)]\<rparr>"
    by code_simp+
  show ?thesis
    using h zero_denominator_gives_nan[OF h(1), of "''g1''" 1 0]
    by blast
qed

section \<open>The output of makeDFE-alpha.c\<close>

lemma sfs_frame_refl: "sfs_frame st st"
  by (simp add: sfs_frame_def)

lemma sfs_frame_trans: "sfs_frame a b \<Longrightarrow> sfs_frame b c \<Longrightarrow> sfs_frame a c"
  by (simp add: sfs_frame_def)

lemma sfs_store_frame: "sfs_store st v = Inr st' \<Longrightarrow> sfs_frame st st'"
  by (auto simp add: sfs_store_def sfs_frame_def split: option.splits if_splits)

lemma sfs_sample_frame: "sfs_sample behind st temp = Inr st' \<Longrightarrow> sfs_frame st st'"
proof -
  assume s: "sfs_sample behind st temp = Inr st'"
  have u: "sfs_frame st (st\<lparr>m_i1 := m_i1 st + 1\<rparr>)" "sfs_frame st (st\<lparr>m_i0 := m_i0 st + 1\<rparr>)"
    by (simp_all add: sfs_frame_def)
  from s consider "sfs_store (st\<lparr>m_i1 := m_i1 st + 1\<rparr>) 1 = Inr st'"
    | "sfs_store (st\<lparr>m_i0 := m_i0 st + 1\<rparr>) 0 = Inr st'" | "sfs_store st 9 = Inr st'"
    by (auto simp add: sfs_sample_def split: if_splits)
  then show ?thesis
    using u by cases (blast intro: sfs_frame_trans sfs_store_frame)+
qed

lemma sfs_locate_frame: "sfs_frame st (sfs_locate sites dv st)"
  by (simp add: sfs_locate_def sfs_frame_def split: prod.splits)

lemma sfs_body_frame: "sfs_body behind sites dv gc j st temp = Inr (b, st') \<Longrightarrow> sfs_frame st st'"
proof -
  assume b: "sfs_body behind sites dv gc j st temp = Inr (b, st')"
  have u: "sfs_frame st (st\<lparr>m_pos := atoi temp\<rparr>)" by (simp add: sfs_frame_def)
  have l: "sfs_frame st (sfs_locate sites dv (st\<lparr>m_pos := atoi temp\<rparr>))"
    using u sfs_locate_frame by (rule sfs_frame_trans)
  show ?thesis
    using b l sfs_sample_frame[of behind st temp]
    by (auto simp add: sfs_body_def Let_def sfs_frame_refl split: if_splits sum.splits)
       (simp_all add: sfs_frame_def)
qed

lemma sfs_tokens_frame: "sfs_tokens behind sites dv gc j st toks = Inr st' \<Longrightarrow> sfs_frame st st'"
proof (induction toks arbitrary: j st)
  case Nil
  then show ?case by (simp add: sfs_frame_refl)
next
  case (Cons temp rest)
  from Cons.prems obtain b st1 where b: "sfs_body behind sites dv gc j st temp = Inr (b, st1)"
    by (auto split: sum.splits)
  then have f: "sfs_frame st st1" by (rule sfs_body_frame)
  show ?case
  proof (cases b)
    case True
    with b Cons.prems have "sfs_tokens behind sites dv gc (j + 1) st1 rest = Inr st'" by simp
    then have "sfs_frame st1 st'" by (rule Cons.IH)
    with f show ?thesis by (rule sfs_frame_trans)
  next
    case False
    with b Cons.prems have "st' = st1" by simp
    with f show ?thesis by simp
  qed
qed

lemma sfs_site_before: "sfs_site st = Inr st' \<Longrightarrow> sfs_before st \<Longrightarrow> sfs_before st'"
  by (auto simp add: sfs_site_def sfs_before_def split: if_splits sum.splits option.splits)

lemma sfs_site_inv: "sfs_site st = Inr st' \<Longrightarrow> sfs_inv st \<Longrightarrow> sfs_inv st' \<and> m_ind_i st' = m_ind_i st"
proof -
  assume s: "sfs_site st = Inr st'" and i: "sfs_inv st"
  from i obtain sfs g where h: "m_sfs st = Some sfs" "m_geno st = Some g" "length sfs = m_ind_i st + 1"
    "length g = m_ind_i st" "sum_list sfs = m_si st" "m_di st \<le> m_si st"
    by (auto simp add: sfs_inv_def)
  show ?thesis
  proof (cases "m_ok st")
    case False
    with s have "st' = st" by (simp add: sfs_site_def)
    with i show ?thesis by simp
  next
    case True
    with s h obtain count where c: "count < length sfs"
      and st': "st' = st\<lparr>m_sfs := Some (sfs[count := sfs ! count + 1]),
                  m_di := (if m_rd st then m_di st + 1 else m_di st), m_si := m_si st + 1\<rparr>"
      by (auto simp add: sfs_site_def split: if_splits sum.splits)
    from c have "sum_list (sfs[count := sfs ! count + 1]) = sum_list sfs + 1"
      by (simp add: sum_list_update)
    with h c show ?thesis unfolding st' by (simp add: sfs_inv_def)
  qed
qed

lemma sfs_header_inv:
  "sfs_before st \<Longrightarrow> sfs_inv (sfs_header st toks) \<and> m_ind_i (sfs_header st toks) = length (drop 9 toks)"
  by (simp add: sfs_before_def sfs_inv_def sfs_header_def Let_def)

lemma sfs_line_data:
  assumes "sfs_line behind sites dv gc st line = Inr st'" "\<not> is_header line"
  shows "st' = st \<or> (\<exists>st1. sfs_frame st st1 \<and> sfs_site st1 = Inr st')"
proof -
  from assms obtain temp rest where t: "tokens line = temp # rest" "cstring temp \<noteq> ''#CHROM''"
    by (cases "tokens line") (auto simp add: sfs_line_def is_header_def)
  let ?st0 = "st\<lparr>m_chr := atoi temp, m_i := 0, m_i1 := 0, m_i0 := 0, m_ok := False, m_rd := False\<rparr>"
  have f0: "sfs_frame st ?st0" by (simp add: sfs_frame_def)
  show ?thesis
  proof (cases "isdigit (char0 temp)")
    case False
    with assms(1) t show ?thesis by (simp add: sfs_line_def)
  next
    case True
    with assms(1) t obtain st1 where s: "sfs_tokens behind sites dv gc 1 ?st0 (temp # rest) = Inr st1"
      "sfs_site st1 = Inr st'"
      by (auto simp add: sfs_line_def simp del: sfs_tokens.simps split: sum.splits)
    from s(1) have "sfs_frame ?st0 st1" by (rule sfs_tokens_frame)
    with f0 have "sfs_frame st st1" by (rule sfs_frame_trans)
    with s(2) show ?thesis by blast
  qed
qed

lemma frame_before: "sfs_frame st st1 \<Longrightarrow> sfs_before st \<Longrightarrow> sfs_before st1"
  by (simp add: sfs_frame_def sfs_before_def)

lemma frame_inv: "sfs_frame st st1 \<Longrightarrow> sfs_inv st \<Longrightarrow> sfs_inv st1 \<and> m_ind_i st1 = m_ind_i st"
  by (auto simp add: sfs_frame_def sfs_inv_def)

lemma sfs_line_before:
  assumes "sfs_line behind sites dv gc st line = Inr st'" "\<not> is_header line" "sfs_before st"
  shows "sfs_before st'"
proof -
  from sfs_line_data[OF assms(1,2)] show ?thesis
  proof
    assume "st' = st"
    with assms(3) show ?thesis by simp
  next
    assume "\<exists>st1. sfs_frame st st1 \<and> sfs_site st1 = Inr st'"
    then obtain st1 where f: "sfs_frame st st1" and s: "sfs_site st1 = Inr st'" by blast
    from f assms(3) have "sfs_before st1" by (rule frame_before)
    with s show ?thesis by (rule sfs_site_before)
  qed
qed

lemma sfs_line_inv:
  assumes "sfs_line behind sites dv gc st line = Inr st'" "\<not> is_header line" "sfs_inv st"
  shows "sfs_inv st' \<and> m_ind_i st' = m_ind_i st"
proof -
  from sfs_line_data[OF assms(1,2)] show ?thesis
  proof
    assume "st' = st"
    with assms(3) show ?thesis by simp
  next
    assume "\<exists>st1. sfs_frame st st1 \<and> sfs_site st1 = Inr st'"
    then obtain st1 where f: "sfs_frame st st1" and s: "sfs_site st1 = Inr st'" by blast
    from f assms(3) have 1: "sfs_inv st1 \<and> m_ind_i st1 = m_ind_i st" by (rule frame_inv)
    then have "sfs_inv st1" by simp
    with s have "sfs_inv st' \<and> m_ind_i st' = m_ind_i st1" by (rule sfs_site_inv)
    with 1 show ?thesis by simp
  qed
qed

lemma sfs_line_header:
  "is_header line \<Longrightarrow> sfs_line behind sites dv gc st line = Inr (sfs_header st (tokens line))"
  by (auto simp add: sfs_line_def is_header_def split: list.splits)

lemma sfs_lines_before:
  "sfs_lines behind sites dv gc st ls = Inr st' \<Longrightarrow> \<forall>l \<in> set ls. \<not> is_header l \<Longrightarrow> sfs_before st \<Longrightarrow>
   sfs_before st'"
proof (induction ls arbitrary: st)
  case Nil
  then show ?case by simp
next
  case (Cons l ls)
  from Cons.prems(1) obtain st1 where s: "sfs_line behind sites dv gc st l = Inr st1"
    "sfs_lines behind sites dv gc st1 ls = Inr st'"
    by (auto split: sum.splits)
  from Cons.prems(2) have n: "\<not> is_header l" "\<forall>l \<in> set ls. \<not> is_header l" by simp_all
  have "sfs_before st1" by (rule sfs_line_before[OF s(1) n(1) Cons.prems(3)])
  then show ?case by (rule Cons.IH[OF s(2) n(2)])
qed

lemma sfs_lines_inv:
  "sfs_lines behind sites dv gc st ls = Inr st' \<Longrightarrow> \<forall>l \<in> set ls. \<not> is_header l \<Longrightarrow> sfs_inv st \<Longrightarrow>
   sfs_inv st' \<and> m_ind_i st' = m_ind_i st"
proof (induction ls arbitrary: st)
  case Nil
  then show ?case by simp
next
  case (Cons l ls)
  from Cons.prems(1) obtain st1 where s: "sfs_line behind sites dv gc st l = Inr st1"
    "sfs_lines behind sites dv gc st1 ls = Inr st'"
    by (auto split: sum.splits)
  from Cons.prems(2) have n: "\<not> is_header l" "\<forall>l \<in> set ls. \<not> is_header l" by simp_all
  have 1: "sfs_inv st1 \<and> m_ind_i st1 = m_ind_i st"
    by (rule sfs_line_inv[OF s(1) n(1) Cons.prems(3)])
  then have "sfs_inv st1" by simp
  then have "sfs_inv st' \<and> m_ind_i st' = m_ind_i st1" by (rule Cons.IH[OF s(2) n(2)])
  with 1 show ?case by simp
qed

lemma sfs_lines_append:
  "sfs_lines behind sites dv gc st (xs @ ys) =
     (case sfs_lines behind sites dv gc st xs of Inl e \<Rightarrow> Inl e | Inr st1 \<Rightarrow> sfs_lines behind sites dv gc st1 ys)"
  by (induction xs arbitrary: st) (auto split: sum.splits)

lemma sfs_init_before: "sfs_before sfs_init"
  by (simp add: sfs_before_def sfs_init_def)

text \<open>
  Claim C9 as stated fails for a variant file in which the header line comes a second
  time. The second header line adds its individuals to \<^verbatim>\<open>ind_i\<close> and allocates a new
  histogram, set to zero, while the totals \<^verbatim>\<open>si\<close> and \<^verbatim>\<open>di\<close> keep the sites counted
  before it. With the header of three individuals before and after one eligible line
  the program prints seven entries, all zero, and the total 1; with a further eligible
  line of six genotype columns it prints seven entries that add up to 1 and the
  total 2.
\<close>

theorem sfs_second_header_counterexample:
  "readVcf_makeDFE (CHR 0x00) ex_sites ex_div 1 ex_two_headers = Inr ([0, 0, 0, 0, 0, 0, 0], 1, 0) \<and>
   sum_list [0, 0, 0, 0, 0, 0, 0 :: nat] \<noteq> 1 \<and>
   readVcf_makeDFE (CHR 0x00) ex_sites ex_div 1 (ex_two_headers @ [ex_six_calls]) =
     Inr ([0, 0, 0, 0, 0, 0, 1], 2, 1) \<and>
   sum_list [0, 0, 0, 0, 0, 0, 1 :: nat] \<noteq> 2"
  by code_simp

text \<open>
  Claim C9 as amended. The variant file has exactly one header line, \<open>hdr\<close>, and the run
  ends without error with the output \<open>(hist, si, di)\<close>: the histogram printed, the total
  of eligible sites and the count of those with a divergence record. The sample size is
  the number of tokens of the header line from the tenth on. Then the histogram has one
  entry more than the sample size, its entries add up to \<open>si\<close>, and \<open>di\<close> does not
  exceed \<open>si\<close>.
\<close>

theorem sfs_output_invariant:
  assumes run: "readVcf_makeDFE behind sites dv gc (pre @ hdr # post) = Inr (hist, si, di)"
    and hdr: "is_header hdr" and others: "\<forall>l \<in> set (pre @ post). \<not> is_header l"
  shows "length hist = length (drop 9 (tokens hdr)) + 1 \<and> sum_list hist = si \<and> di \<le> si"
proof -
  from run obtain st where st: "sfs_lines behind sites dv gc sfs_init (pre @ hdr # post) = Inr st"
    and pr: "sfs_print st = Inr (hist, si, di)"
    by (auto simp add: readVcf_makeDFE_def split: sum.splits)
  from st obtain st1 where 1: "sfs_lines behind sites dv gc sfs_init pre = Inr st1"
    and 2: "sfs_lines behind sites dv gc st1 (hdr # post) = Inr st"
    by (auto simp add: sfs_lines_append split: sum.splits)
  from others have o: "\<forall>l \<in> set pre. \<not> is_header l" "\<forall>l \<in> set post. \<not> is_header l"
    by simp_all
  have b: "sfs_before st1" by (rule sfs_lines_before[OF 1 o(1) sfs_init_before])
  let ?st2 = "sfs_header st1 (tokens hdr)"
  from 2 hdr have 3: "sfs_lines behind sites dv gc ?st2 post = Inr st"
    by (simp add: sfs_line_header)
  from b have i2: "sfs_inv ?st2" "m_ind_i ?st2 = length (drop 9 (tokens hdr))"
    using sfs_header_inv by blast+
  have "sfs_inv st \<and> m_ind_i st = m_ind_i ?st2" by (rule sfs_lines_inv[OF 3 o(2) i2(1)])
  with i2(2) have inv: "sfs_inv st" and n: "m_ind_i st = length (drop 9 (tokens hdr))" by simp_all
  from inv obtain sfs where h: "m_sfs st = Some sfs" "length sfs = m_ind_i st + 1"
    "sum_list sfs = m_si st" "m_di st \<le> m_si st"
    by (auto simp add: sfs_inv_def)
  have "map (\<lambda>i. sfs ! i) [0 ..< m_ind_i st + 1] = sfs"
    using h(2) map_nth[of sfs] by simp
  with pr h have "hist = sfs" "si = m_si st" "di = m_di st"
    by (auto simp add: sfs_print_def split: if_splits)
  with h n show ?thesis by simp
qed

theorem sfs_output_invariant_witness:
  "readVcf_makeDFE (CHR 0x00) ex_sites ex_div 1 ([ex_meta] @ ex_header # ex_data) = Inr ([0, 1, 1, 0], 2, 1) \<and>
   is_header ex_header \<and> list_all (\<lambda>l. \<not> is_header l) ([ex_meta] @ ex_data) \<and>
   length [0, 1, 1, 0 :: nat] = length (drop 9 (tokens ex_header)) + 1 \<and>
   sum_list [0, 1, 1, 0 :: nat] = 2 \<and> (1 :: nat) \<le> 2"
proof -
  have h: "readVcf_makeDFE (CHR 0x00) ex_sites ex_div 1 ([ex_meta] @ ex_header # ex_data) =
      Inr ([0, 1, 1, 0], 2, 1)"
    "is_header ex_header" "\<forall>l \<in> set ([ex_meta] @ ex_data). \<not> is_header l"
    by code_simp+
  show ?thesis
    using h sfs_output_invariant[OF h]
    unfolding list_all_iff by blast
qed

end
